theory Spec2Isabelle
  imports Main "HOL-Library.Monad_Syntax"
begin

section \<open>JavaScript values\<close>

text \<open>
  The form library keeps two trees of plain JavaScript values: the data tree (the store
  \<open>values\<close>) and the metadata tree (the store \<open>state\<close>). Both are walked dynamically
  (\<open>for (key in x)\<close>, \<open>x[key]\<close>, \<open>typeof\<close>, \<open>Array.isArray\<close>), so both are values of one type. An object is the list of
  its own enumerable properties in insertion order; an array is its elements together with its
  own named properties (the library stores \<open>_touched\<close> and \<open>_errors\<close> on arrays). Numbers are
  never computed with. \<open>Func\<close> is an opaque function value: the only ones the library meets are
  the methods of the store object that \<open>createForm\<close> hands to \<open>createState\<close>.

  Not modelled: inherited properties (a key is never the name of a member of
  \<open>Object.prototype\<close> or \<open>Array.prototype\<close>), array holes (an array that is extended past its
  end is padded with \<open>Undefined\<close>), properties of functions, and the rule that a \<open>for-in\<close> loop
  lists integer-like keys of a plain object first.
\<close>

datatype jsval =
    Undefined
  | Null
  | Bool bool
  | Num int
  | Str string
  | Func
  | Obj "(string \<times> jsval) list"
  | Arr "jsval list" "(string \<times> jsval) list"

fun truthy :: "jsval \<Rightarrow> bool" where
  "truthy Undefined = False"
| "truthy Null = False"
| "truthy (Bool b) = b"
| "truthy (Num n) = (n \<noteq> 0)"
| "truthy (Str s) = (s \<noteq> [])"
| "truthy Func = True"
| "truthy (Obj kvs) = True"
| "truthy (Arr es ps) = True"

text \<open>\<open>isNullish\<close> of the source: \<open>value === undefined || value === null\<close>.\<close>

fun isNullish :: "jsval \<Rightarrow> bool" where
  "isNullish Undefined = True"
| "isNullish Null = True"
| "isNullish v = False"

subsection \<open>Property lists\<close>

fun lookup :: "(string \<times> jsval) list \<Rightarrow> string \<Rightarrow> jsval" where
  "lookup [] k = Undefined"
| "lookup ((k', v) # kvs) k = (if k' = k then v else lookup kvs k)"

text \<open>Assignment to a property keeps the position of an existing key and appends a new one.\<close>

fun set_entry :: "string \<Rightarrow> jsval \<Rightarrow> (string \<times> jsval) list \<Rightarrow> (string \<times> jsval) list" where
  "set_entry k v [] = [(k, v)]"
| "set_entry k v ((k', v') # kvs) =
     (if k' = k then (k, v) # kvs else (k', v') # set_entry k v kvs)"

subsection \<open>Array indices as property keys\<close>

fun show_nat :: "nat \<Rightarrow> string" where
  "show_nat n =
     (if n < 10 then [char_of (48 + n)]
      else show_nat (n div 10) @ [char_of (48 + n mod 10)])"

declare show_nat.simps [simp del]

text \<open>\<open>index_of n k\<close>: the index below \<open>n\<close> that the key \<open>k\<close> denotes, if any.\<close>

definition index_of :: "nat \<Rightarrow> string \<Rightarrow> nat option" where
  "index_of n k = List.find (\<lambda>i. show_nat i = k) [0..<n]"

definition is_digit :: "char \<Rightarrow> bool" where
  "is_digit c = (48 \<le> (of_char c :: nat) \<and> (of_char c :: nat) \<le> 57)"

text \<open>
  A canonical array index: decimal digits without a leading zero. (JavaScript also asks for a
  value below \<open>2^32 - 1\<close>; longer keys do not occur.)
\<close>

definition parse_index :: "string \<Rightarrow> nat option" where
  "parse_index k =
     (if k \<noteq> [] \<and> list_all is_digit k \<and> (k = ''0'' \<or> hd k \<noteq> CHR ''0'')
      then Some (foldl (\<lambda>a c. 10 * a + ((of_char c :: nat) - 48)) 0 k)
      else None)"

definition indexed :: "jsval list \<Rightarrow> (string \<times> jsval) list" where
  "indexed es = zip (map show_nat [0..<length es]) es"

subsection \<open>Reading and writing properties\<close>

text \<open>
  \<open>read v k\<close> is \<open>v?.[k]\<close>: \<open>Undefined\<close> on \<open>undefined\<close> and \<open>null\<close>. \<open>get_prop v k\<close> is
  \<open>v[k]\<close>, which throws a TypeError there (\<open>None\<close>).
\<close>

fun read :: "jsval \<Rightarrow> string \<Rightarrow> jsval" where
  "read (Obj kvs) k = lookup kvs k"
| "read (Arr es ps) k =
     (case index_of (length es) k of
        Some i \<Rightarrow> es ! i
      | None \<Rightarrow> if k = ''length'' then Num (int (length es)) else lookup ps k)"
| "read (Str s) k =
     (case index_of (length s) k of
        Some i \<Rightarrow> Str [s ! i]
      | None \<Rightarrow> if k = ''length'' then Num (int (length s)) else Undefined)"
| "read v k = Undefined"

definition get_prop :: "jsval \<Rightarrow> string \<Rightarrow> jsval option" where
  "get_prop v k = (if isNullish v then None else Some (read v k))"

text \<open>
  \<open>v[k] = x\<close> in strict mode (module code): a TypeError on \<open>undefined\<close>, \<open>null\<close> and on every
  primitive. Writing a non-numeric \<open>length\<close> of an array is a RangeError; the library only
  ever writes objects under a computed key. A write to a function is treated like a write to a
  primitive.
\<close>

fun set_prop :: "jsval \<Rightarrow> string \<Rightarrow> jsval \<Rightarrow> jsval option" where
  "set_prop (Obj kvs) k x = Some (Obj (set_entry k x kvs))"
| "set_prop (Arr es ps) k x =
     (case index_of (length es) k of
        Some i \<Rightarrow> Some (Arr (es[i := x]) ps)
      | None \<Rightarrow>
         (case parse_index k of
            Some i \<Rightarrow> Some (Arr (es @ replicate (i - length es) Undefined @ [x]) ps)
          | None \<Rightarrow> if k = ''length'' then None else Some (Arr es (set_entry k x ps))))"
| "set_prop v k x = None"

text \<open>
  The own enumerable properties that \<open>Object.assign({}, v)\<close> and the spread \<open>{...v}\<close> copy,
  and that \<open>for (key in v)\<close> lists.
\<close>

fun own_props :: "jsval \<Rightarrow> (string \<times> jsval) list" where
  "own_props (Obj kvs) = kvs"
| "own_props (Arr es ps) = indexed es @ ps"
| "own_props (Str s) = indexed (map (\<lambda>c. Str [c]) s)"
| "own_props v = []"

definition object_assign :: "jsval \<Rightarrow> jsval" where
  "object_assign v = Obj (own_props v)"

section \<open>Clearing the metadata tree: \<open>clearErrors\<close>\<close>

definition reserved :: "string \<Rightarrow> bool" where
  "reserved k = (k = ''_touched'' \<or> k = ''_errors'')"

text \<open>
  \<open>typeof t === 'boolean' && !touch ? t : touch\<close>, the expression that every branch of
  \<open>clearErrors\<close> and \<open>setErrors\<close> uses for the new \<open>_touched\<close>.
\<close>

fun keep_touched :: "bool \<Rightarrow> jsval \<Rightarrow> jsval" where
  "keep_touched touch (Bool b) = (if \<not> touch then Bool b else Bool touch)"
| "keep_touched touch t = Bool touch"

definition no_errors :: jsval where
  "no_errors = Arr [] []"

text \<open>
  \<open>clearErrors touch v\<close> is \<open>clearErrors(v, touch, true, update)\<close>: the loop over the keys of
  \<open>v\<close> other than \<open>_touched\<close> and \<open>_errors\<close>, each iteration replacing \<open>v[key]\<close>; it returns
  \<open>v\<close> itself, mutated. \<open>clearKey touch c\<close> is what one iteration stores for the old value
  \<open>c = data[key]\<close>:
  \<^item> an array: \<open>values.map(value => clearErrors(value, ...))\<close>, a new array that has no named
    property, so the \<open>_touched\<close> read back from it is \<open>undefined\<close> and the stored flag is
    \<open>touch\<close>;
  \<^item> \<open>typeof c === 'object'\<close> (\<open>null\<close> included): the spread of \<open>clearErrors(c, ...)\<close> with
    \<open>_touched\<close> and \<open>_errors\<close> set;
  \<^item> anything else: a new leaf.
  On a non-empty string the first assignment \<open>data[key] = ...\<close> throws; the \<open>catch\<close> returns
  the argument, which is also what the loop returns for every other value without keys.
\<close>

fun clearErrors :: "bool \<Rightarrow> jsval \<Rightarrow> jsval"
  and clearKey :: "bool \<Rightarrow> jsval \<Rightarrow> jsval" where
  "clearErrors touch (Obj kvs) =
     Obj (map (\<lambda>(k, c). if reserved k then (k, c) else (k, clearKey touch c)) kvs)"
| "clearErrors touch (Arr es ps) =
     Arr (map (clearKey touch) es)
         (map (\<lambda>(k, c). if reserved k then (k, c) else (k, clearKey touch c)) ps)"
| "clearErrors touch v = v"
| "clearKey touch (Arr es ps) =
     Arr (map (clearErrors touch) es)
         (set_entry ''_errors'' no_errors
            (set_entry ''_touched'' (keep_touched touch Undefined) []))"
| "clearKey touch (Obj kvs) =
     (let sub = clearErrors touch (Obj kvs)
      in Obj (set_entry ''_errors'' no_errors
               (set_entry ''_touched'' (keep_touched touch (read sub ''_touched''))
                  (own_props sub))))"
| "clearKey touch Null =
     Obj (set_entry ''_errors'' no_errors
           (set_entry ''_touched'' (keep_touched touch (read Null ''_touched''))
              (own_props (clearErrors touch Null))))"
| "clearKey touch c =
     Obj [(''_touched'', keep_touched touch (read c ''_touched'')), (''_errors'', no_errors)]"

text \<open>
  The one exception the loop can meet is the assignment to an index of a string. The call
  with \<open>inner = false\<close> then returns from its \<open>catch\<close>, before \<open>state.set\<close>.
\<close>

fun clearErrors_throws :: "jsval \<Rightarrow> bool" where
  "clearErrors_throws (Str (c # cs)) = True"
| "clearErrors_throws v = False"

section \<open>Applying violations: \<open>setErrors\<close>\<close>

text \<open>
  One entry of \<open>mainError.inner\<close>. The path is absent (\<open>None\<close>) when the validation library
  reports a violation without one; \<open>error.path.toString()\<close> throws then.
\<close>

record violation =
  path :: "string option"
  message :: string

text \<open>\<open>path.match(/[^.[\]]+/g) || []\<close>: the maximal runs of characters other than \<open>. [ ]\<close>.\<close>

definition is_sep :: "char \<Rightarrow> bool" where
  "is_sep c = (c = CHR ''.'' \<or> c = CHR ''['' \<or> c = CHR '']'')"

fun seg_go :: "string \<Rightarrow> string \<Rightarrow> string list" where
  "seg_go cur [] = (if cur = [] then [] else [cur])"
| "seg_go cur (c # cs) =
     (if is_sep c then (if cur = [] then seg_go [] cs else cur # seg_go [] cs)
      else seg_go (cur @ [c]) cs)"

definition segments_of :: "string \<Rightarrow> string list" where
  "segments_of p = seg_go [] p"

text \<open>
  What one iteration of the loop over \<open>mainError.inner\<close> does: it applies the violation
  (\<open>Applied\<close>, with the tree as mutated), leaves the loop through \<open>break\<close> because an
  intermediate segment is missing (\<open>Unresolved\<close>), or throws (\<open>Raised\<close>). An iteration that
  throws has written nothing: its first failing statement is its first write.
\<close>

datatype step = Applied jsval | Unresolved | Raised

text \<open>
  The source mutates the node \<open>obj[segment]\<close> in place; the model puts the mutated child back
  into its parent. Below a primitive nothing can be written, so nothing is put back.
\<close>

fun replace_child :: "jsval \<Rightarrow> string \<Rightarrow> jsval \<Rightarrow> jsval" where
  "replace_child (Obj kvs) k c = Obj (set_entry k c kvs)"
| "replace_child (Arr es ps) k c =
     (case index_of (length es) k of
        Some i \<Rightarrow> Arr (es[i := c]) ps
      | None \<Rightarrow> if k = ''length'' then Arr es ps else Arr es (set_entry k c ps))"
| "replace_child v k c = v"

text \<open>
  The statements after the segment walk, on the parent \<open>obj\<close>:
  \<^verbatim>\<open>
  if (!obj[lastSegment]) { obj[lastSegment] = { touched: false, _errors: [] }; }
  if (!obj[lastSegment]._errors) { obj[lastSegment]._errors = []; }
  obj[lastSegment]._errors.push(error.message);
  obj[lastSegment]._touched = typeof obj[lastSegment]._touched === 'boolean' && !touchInvalid
      ? obj[lastSegment]._touched : touchInvalid;
  \<close>
\<close>

definition push_message :: "jsval \<Rightarrow> string \<Rightarrow> jsval option" where
  "push_message e msg = (case e of Arr es ps \<Rightarrow> Some (Arr (es @ [Str msg]) ps) | _ \<Rightarrow> None)"

definition write_error :: "bool \<Rightarrow> jsval \<Rightarrow> string \<Rightarrow> string \<Rightarrow> jsval option" where
  "write_error touchInvalid obj lastSegment msg =
     do {
       t0 \<leftarrow> get_prop obj lastSegment;
       obj1 \<leftarrow> (if \<not> truthy t0
                then set_prop obj lastSegment
                       (Obj [(''touched'', Bool False), (''_errors'', no_errors)])
                else Some obj);
       t1 \<leftarrow> get_prop obj1 lastSegment;
       e1 \<leftarrow> get_prop t1 ''_errors'';
       t2 \<leftarrow> (if \<not> truthy e1 then set_prop t1 ''_errors'' no_errors else Some t1);
       e2 \<leftarrow> get_prop t2 ''_errors'';
       e3 \<leftarrow> push_message e2 msg;
       t3 \<leftarrow> set_prop t2 ''_errors'' e3;
       t4 \<leftarrow> set_prop t3 ''_touched'' (keep_touched touchInvalid (read t3 ''_touched''));
       Some (replace_child obj1 lastSegment t4)
     }"

text \<open>
  The walk over \<open>objSegments\<close> (all segments but the last), followed by the write at the node
  it reaches.
\<close>

fun walk :: "bool \<Rightarrow> jsval \<Rightarrow> string list \<Rightarrow> string \<Rightarrow> string \<Rightarrow> step" where
  "walk touchInvalid obj [] lastSegment msg =
     (case write_error touchInvalid obj lastSegment msg of
        None \<Rightarrow> Raised
      | Some obj' \<Rightarrow> Applied obj')"
| "walk touchInvalid obj (segment # rest) lastSegment msg =
     (case get_prop obj segment of
        None \<Rightarrow> Raised
      | Some child \<Rightarrow>
          if \<not> truthy child then Unresolved
          else (case walk touchInvalid child rest lastSegment msg of
                  Applied child' \<Rightarrow> Applied (replace_child obj segment child')
                | Unresolved \<Rightarrow> Unresolved
                | Raised \<Rightarrow> Raised))"

text \<open>
  \<open>segments[segments.length - 1]\<close> is \<open>undefined\<close> for a path without segments, and the
  property key is then the string \<open>undefined\<close>.
\<close>

definition applyViolation :: "bool \<Rightarrow> jsval \<Rightarrow> violation \<Rightarrow> step" where
  "applyViolation touchInvalid st e =
     (case path e of
        None \<Rightarrow> Raised
      | Some p \<Rightarrow>
          (let segments = segments_of p
           in if segments = [] then walk touchInvalid st [] ''undefined'' (message e)
              else walk touchInvalid st (butlast segments) (last segments) (message e)))"

text \<open>
  The loop \<open>for (let error of mainError.inner)\<close>. The result is the tree as the loop leaves
  it and whether the loop ended without an exception. The \<open>break\<close> after \<open>exists = false\<close>
  is inside the \<open>if\<close> of the outer loop's body, so it ends the outer loop.
\<close>

fun applyErrors :: "bool \<Rightarrow> violation list \<Rightarrow> jsval \<Rightarrow> jsval \<times> bool" where
  "applyErrors touchInvalid [] st = (st, True)"
| "applyErrors touchInvalid (e # es) st =
     (case applyViolation touchInvalid st e of
        Applied st' \<Rightarrow> applyErrors touchInvalid es st'
      | Unresolved \<Rightarrow> (st, True)
      | Raised \<Rightarrow> (st, False))"

section \<open>Building the metadata tree\<close>

text \<open>
  The schema as the builder sees it: \<open>type === 'array'\<close> with the fields of its \<open>innerType\<close>
  (none when the inner type is not an object schema), \<open>type === 'object'\<close> with its fields, or
  any other type. The validation library's classes are not part of the repository; an array
  schema is taken to have an \<open>innerType\<close>.
\<close>

datatype yschema =
    YScalar
  | YObject "(string \<times> yschema) list"
  | YArray "(string \<times> yschema) list"

text \<open>The leaf \<open>{ _touched: t, _errors: [] }\<close>, and \<open>t || false\<close>.\<close>

definition leaf :: "jsval \<Rightarrow> jsval" where
  "leaf t = Obj [(''_touched'', t), (''_errors'', no_errors)]"

definition or_false :: "jsval \<Rightarrow> jsval" where
  "or_false t = (if truthy t then t else Bool False)"

text \<open>\<open>values.map\<close> exists on arrays only; on anything else the call throws.\<close>

definition as_elements :: "jsval \<Rightarrow> jsval list option" where
  "as_elements v = (case v of Arr es ps \<Rightarrow> Some es | _ \<Rightarrow> None)"

text \<open>\<open>{ ...sub, _errors: [] }\<close>.\<close>

definition with_errors :: "jsval \<Rightarrow> jsval" where
  "with_errors sub = Obj (set_entry ''_errors'' no_errors (own_props sub))"

text \<open>\<open>state[key] = new; state[key]._errors = [];\<close> for the new array.\<close>

definition store_array :: "jsval \<Rightarrow> string \<Rightarrow> jsval list \<Rightarrow> jsval option" where
  "store_array state key new =
     do {
       state1 \<leftarrow> set_prop state key (Arr new []);
       arr \<leftarrow> get_prop state1 key;
       arr' \<leftarrow> set_prop arr ''_errors'' no_errors;
       Some (replace_child state1 key arr')
     }"

text \<open>
  \<open>createValidatedState(data, schema, state)\<close>: the loop \<open>for (let key in schema)\<close> over the
  fields still to visit, the state threaded through. \<open>None\<close> is a thrown TypeError. The array
  branch reads the data with \<open>data?.[key]\<close>, the object branch with \<open>data[key]\<close>; an object
  schema without fields (\<open>isEmpty(schema[key].fields)\<close>) takes the last branch.
\<close>

fun createValidatedState ::
  "jsval \<Rightarrow> (string \<times> yschema) list \<Rightarrow> jsval \<Rightarrow> jsval option" where
  "createValidatedState data [] state = Some state"
| "createValidatedState data ((key, YArray inner) # rest) state =
     do {
       elems \<leftarrow> as_elements (let d = read data key in if truthy d then d else Arr [] []);
       new \<leftarrow> those (map (\<lambda>(index, value).
                 do {
                   prev \<leftarrow> get_prop state key;
                   createValidatedState value inner (object_assign (read prev (show_nat index)))
                 }) (enumerate 0 elems));
       state1 \<leftarrow> store_array state key new;
       createValidatedState data rest state1
     }"
| "createValidatedState data ((key, YObject fs) # rest) state =
     (if fs \<noteq> [] then
        do {
          d \<leftarrow> get_prop data key;
          prev \<leftarrow> get_prop state key;
          sub \<leftarrow> createValidatedState d fs (object_assign prev);
          state1 \<leftarrow> set_prop state key (with_errors sub);
          createValidatedState data rest state1
        }
      else
        do {
          state1 \<leftarrow> set_prop state key (leaf (or_false (read (read state key) ''_touched'')));
          createValidatedState data rest state1
        })"
| "createValidatedState data ((key, YScalar) # rest) state =
     do {
       state1 \<leftarrow> set_prop state key (leaf (or_false (read (read state key) ''_touched'')));
       createValidatedState data rest state1
     }"

text \<open>
  \<open>createRawState(data, state)\<close>: the loop \<open>for (let key in data)\<close>. \<open>rawKeys\<close> runs it over
  named properties and \<open>rawElems\<close> over the indices of an array (whose keys are the decimal
  numerals); \<open>rawKey key v state\<close> is one iteration, with \<open>v = data[key]\<close>. The characters of
  a string are strings, so each gets a leaf.
\<close>

function (sequential) createRawState :: "jsval \<Rightarrow> jsval \<Rightarrow> jsval option"
  and rawKeys :: "(string \<times> jsval) list \<Rightarrow> jsval \<Rightarrow> jsval option"
  and rawElems :: "nat \<Rightarrow> jsval list \<Rightarrow> jsval \<Rightarrow> jsval option"
  and rawKey :: "string \<Rightarrow> jsval \<Rightarrow> jsval \<Rightarrow> jsval option" where
  "createRawState (Obj kvs) state = rawKeys kvs state"
| "createRawState (Arr es ps) state =
     do { state1 \<leftarrow> rawElems 0 es state; rawKeys ps state1 }"
| "createRawState (Str s) state =
     fold (\<lambda>key st.
             do {
               state0 \<leftarrow> st;
               set_prop state0 key (leaf (or_false (read (read state0 key) ''_touched'')))
             })
       (map show_nat [0..<length s]) (Some state)"
| "createRawState v state = Some state"
| "rawKeys [] state = Some state"
| "rawKeys ((key, v) # rest) state =
     do { state1 \<leftarrow> rawKey key v state; rawKeys rest state1 }"
| "rawElems i [] state = Some state"
| "rawElems i (v # rest) state =
     do { state1 \<leftarrow> rawKey (show_nat i) v state; rawElems (Suc i) rest state1 }"
| "rawKey key (Arr es ps) state =
     do {
       new \<leftarrow> those (map (\<lambda>(index, value).
                 do {
                   prev \<leftarrow> get_prop state key;
                   createRawState value (object_assign (read prev (show_nat index)))
                 }) (enumerate 0 es));
       store_array state key new
     }"
| "rawKey key (Obj kvs) state =
     do {
       prev \<leftarrow> get_prop state key;
       sub \<leftarrow> createRawState (Obj kvs) (object_assign prev);
       set_prop state key (with_errors sub)
     }"
| "rawKey key Null state =
     do {
       prev \<leftarrow> get_prop state key;
       sub \<leftarrow> createRawState Null (object_assign prev);
       set_prop state key (with_errors sub)
     }"
| "rawKey key v state =
     set_prop state key (leaf (or_false (read (read state key) ''_touched'')))"
  by pat_completeness auto

termination
  apply (relation "measure (case_sum
           (case_sum (\<lambda>(d, s). 2 * size d)
                     (\<lambda>(kvs, s). 2 * size_list (\<lambda>p. size (snd p)) kvs))
           (case_sum (\<lambda>(i, es, s). 2 * size_list size es)
                     (\<lambda>(k, v, s). 2 * size v + 1)))")
         apply (auto simp: in_set_enumerate_eq)
  subgoal for kvs by (induction kvs) auto
  subgoal for es ps by (induction ps) auto
  subgoal for key es ps state a
    by (induction es arbitrary: a) (auto simp: nth_Cons split: nat.splits, fastforce)
  done

text \<open>
  \<open>JSON.parse(JSON.stringify(v))\<close>: properties whose value is \<open>undefined\<close> or a function are
  left out, such elements of an array become \<open>null\<close>, and the named properties of an array
  are lost. At the top \<open>JSON.stringify\<close> returns \<open>undefined\<close> for such a value and
  \<open>JSON.parse\<close> throws.
\<close>

fun json_omitted :: "jsval \<Rightarrow> bool" where
  "json_omitted Undefined = True"
| "json_omitted Func = True"
| "json_omitted v = False"

fun json_copy :: "jsval \<Rightarrow> jsval" where
  "json_copy (Obj kvs) =
     Obj (concat (map (\<lambda>(k, v). if json_omitted v then [] else [(k, json_copy v)]) kvs))"
| "json_copy (Arr es ps) =
     Arr (map (\<lambda>v. if json_omitted v then Null else json_copy v) es) []"
| "json_copy v = v"

definition json_clone :: "jsval \<Rightarrow> jsval option" where
  "json_clone v = (if json_omitted v then None else Some (json_copy v))"

section \<open>The form\<close>

text \<open>
  The validation capability. \<open>validateSync\<close> returns (\<open>Passes\<close>), throws a ValidationError
  whose \<open>inner\<close> lists the violations (\<open>Fails\<close>), or throws something else (\<open>Throws\<close>), which
  has no \<open>inner\<close>.
\<close>

datatype outcome = Passes | Fails "violation list" | Throws

record schema =
  schema_fields :: "(string \<times> yschema) list"
  validateSync :: "jsval \<Rightarrow> outcome"

text \<open>
  The stores of one form: \<open>form_values\<close> is the value of the \<open>values\<close> store and
  \<open>form_state\<close> is the object the \<open>state\<close> store holds; \<open>get(state)\<close>
  returns that object itself, so what the library writes into it is in the store at once,
  before and without any \<open>state.set\<close>. \<open>state_sets\<close> counts the calls of \<open>state.set\<close>, which
  is what subscribers see. The counters and class lists of the CSS adapter are left out.
\<close>

record form =
  form_values :: jsval
  form_state :: jsval
  state_sets :: nat
  isValid :: bool
  isTouched :: bool

text \<open>
  \<open>setErrors(state, mainError, touchValid, touchInvalid)\<close>; \<open>inner\<close> is \<open>None\<close> when
  \<open>mainError.inner\<close> is not iterable, and the loop header throws then. The \<open>catch\<close> logs and
  returns; \<open>state.set\<close> is reached only when nothing was thrown.
\<close>

definition setErrors :: "form \<Rightarrow> violation list option \<Rightarrow> bool \<Rightarrow> bool \<Rightarrow> form" where
  "setErrors f inner touchValid touchInvalid =
     (let st1 = clearErrors touchValid (form_state f)
      in case inner of
           None \<Rightarrow> f\<lparr>form_state := st1\<rparr>
         | Some errs \<Rightarrow>
             (case applyErrors touchInvalid errs st1 of
                (st2, True) \<Rightarrow> f\<lparr>form_state := st2, state_sets := state_sets f + 1\<rparr>
              | (st2, False) \<Rightarrow> f\<lparr>form_state := st2\<rparr>))"

text \<open>
  \<open>validate(form, schema, state, touchValid, touchInvalid)\<close>, returning the form and the
  boolean. Without a schema \<open>schema.validateSync\<close> is itself a TypeError, caught like any
  other. On success \<open>clearErrors(state, touchValid)\<close> works on \<open>get(state)\<close> and ends with
  \<open>state.set\<close>.
\<close>

definition validate :: "schema option \<Rightarrow> form \<Rightarrow> bool \<Rightarrow> bool \<Rightarrow> form \<times> bool" where
  "validate sch f touchValid touchInvalid =
     (case (case sch of None \<Rightarrow> Throws | Some s \<Rightarrow> validateSync s (form_values f)) of
        Passes \<Rightarrow>
          (f\<lparr>form_state := clearErrors touchValid (form_state f),
             state_sets := (if clearErrors_throws (form_state f) then state_sets f
                            else state_sets f + 1)\<rparr>, True)
      | Fails errs \<Rightarrow> (setErrors f (Some errs) touchValid touchInvalid, False)
      | Throws \<Rightarrow> (setErrors f None touchValid touchInvalid, False))"

datatype highlight = HNone | HErrors | HAll

definition validateForm :: "schema option \<Rightarrow> highlight \<Rightarrow> form \<Rightarrow> form" where
  "validateForm sch h f =
     (case validate sch f (h = HAll) (h = HAll \<or> h = HErrors) of
        (f', ok) \<Rightarrow> f'\<lparr>isValid := ok\<rparr>)"

text \<open>
  \<open>createState(values, state, validationSchema)\<close>; the builders start from their default
  \<open>state = {}\<close>. A builder that throws leaves the store as it is.
\<close>

definition createState :: "schema option \<Rightarrow> jsval \<Rightarrow> form \<Rightarrow> form option" where
  "createState sch vals f =
     do {
       st \<leftarrow> (case sch of
                Some s \<Rightarrow> createValidatedState vals (schema_fields s) (Obj [])
              | None \<Rightarrow> createRawState vals (Obj []));
       Some (f\<lparr>form_state := st, state_sets := state_sets f + 1\<rparr>)
     }"

text \<open>\<open>updateState(form, validationSchema, state)\<close>, and \<open>updateForm\<close>, which validates after it.\<close>

definition updateState :: "schema option \<Rightarrow> form \<Rightarrow> form option" where
  "updateState sch f =
     do {
       prev \<leftarrow> json_clone (form_state f);
       st \<leftarrow> (case sch of
                Some s \<Rightarrow> createValidatedState (form_values f) (schema_fields s) prev
              | None \<Rightarrow> createRawState (form_values f) prev);
       Some (f\<lparr>form_state := st, state_sets := state_sets f + 1\<rparr>)
     }"

definition updateForm :: "schema option \<Rightarrow> form \<Rightarrow> form option" where
  "updateForm sch f = map_option (validateForm sch HNone) (updateState sch f)"

text \<open>
  \<open>values.set(newValue)\<close>. The store (of the Svelte library) keeps a value that is equal to
  the old one and a primitive; otherwise it stores the new value and runs the subscribers.
  The one subscriber of \<open>values\<close> is \<open>() => { validationSchema && validateForm(); }\<close>.
\<close>

fun safe_not_equal :: "jsval \<Rightarrow> jsval \<Rightarrow> bool" where
  "safe_not_equal (Obj kvs) b = True"
| "safe_not_equal (Arr es ps) b = True"
| "safe_not_equal Func b = True"
| "safe_not_equal a b = (a \<noteq> b)"

definition on_values :: "schema option \<Rightarrow> form \<Rightarrow> form" where
  "on_values sch f = (case sch of Some s \<Rightarrow> validateForm sch HNone f | None \<Rightarrow> f)"

definition values_set :: "schema option \<Rightarrow> jsval \<Rightarrow> form \<Rightarrow> form" where
  "values_set sch newValue f =
     (if safe_not_equal (form_values f) newValue
      then on_values sch (f\<lparr>form_values := newValue\<rparr>)
      else f)"

text \<open>
  \<open>resetForm(newValue)\<close>, with \<open>Undefined\<close> for a call without argument. The boolean tells
  whether the call returned; when \<open>createState\<close> throws, the stores are as the statements
  before it left them.
\<close>

definition resetForm :: "schema option \<Rightarrow> jsval \<Rightarrow> form \<Rightarrow> form \<times> bool" where
  "resetForm sch newValue f =
     (let f1 = (if truthy newValue then values_set sch newValue f else f);
          f2 = f1\<lparr>form_state := Obj [], state_sets := state_sets f1 + 1,
                  isValid := False, isTouched := False\<rparr>
      in case createState sch (form_values f2) f2 of
           None \<Rightarrow> (f2, False)
         | Some f3 \<Rightarrow> (f3, True))"

text \<open>
  \<open>createForm\<close>. The first argument of \<open>createState\<close> is \<open>values\<close>, the store itself, an
  object whose properties are the functions \<open>set\<close>, \<open>update\<close> and \<open>subscribe\<close>.
  \<open>values.subscribe\<close> runs its callback at once.
\<close>

definition store_object :: jsval where
  "store_object = Obj [(''set'', Func), (''update'', Func), (''subscribe'', Func)]"

definition createForm :: "schema option \<Rightarrow> jsval \<Rightarrow> form option" where
  "createForm sch initialValues =
     do {
       f1 \<leftarrow> createState sch store_object
               \<lparr>form_values = initialValues, form_state = Obj [], state_sets = 0,
                isValid = False, isTouched = False\<rparr>;
       Some (on_values sch f1)
     }"

section \<open>Properties of trees\<close>

text \<open>
  A violation list all of whose members apply, one after the other: the tree they leave.
\<close>

fun applyAll :: "bool \<Rightarrow> violation list \<Rightarrow> jsval \<Rightarrow> jsval option" where
  "applyAll touchInvalid [] st = Some st"
| "applyAll touchInvalid (e # es) st =
     (case applyViolation touchInvalid st e of
        Applied st' \<Rightarrow> applyAll touchInvalid es st'
      | Unresolved \<Rightarrow> None
      | Raised \<Rightarrow> None)"




text \<open>
  Shapes. The shape of a data tree has a record for an object, a sequence for an array and a
  leaf for anything else. In a metadata tree that the builder made, the leaves are the objects
  that carry \<open>_touched\<close>; the children of a record are its properties other than \<open>_touched\<close>
  and \<open>_errors\<close>.
\<close>

datatype shape = SLeaf | SRecord "(string \<times> shape) list" | SSeq "shape list"

fun shapeOf :: "jsval \<Rightarrow> shape" where
  "shapeOf (Obj kvs) = SRecord (map (\<lambda>(k, v). (k, shapeOf v)) kvs)"
| "shapeOf (Arr es ps) = SSeq (map shapeOf es)"
| "shapeOf v = SLeaf"

fun metadataShapeOf :: "jsval \<Rightarrow> shape" where
  "metadataShapeOf (Obj kvs) =
     (if ''_touched'' \<in> set (map fst kvs) then SLeaf
      else SRecord (concat (map (\<lambda>(k, c). if reserved k then [] else [(k, metadataShapeOf c)])
                              kvs)))"
| "metadataShapeOf (Arr es ps) = SSeq (map metadataShapeOf es)"
| "metadataShapeOf v = SLeaf"

text \<open>
  The data trees of the specification: a record whose fields are scalars, records or
  sequences of records. Field names are distinct, as in every object, and none is \<open>_touched\<close>
  or \<open>_errors\<close>; \<open>null\<close> is not a scalar here (\<open>typeof null\<close> is \<open>'object'\<close>).
\<close>

fun is_record :: "jsval \<Rightarrow> bool" and is_field :: "jsval \<Rightarrow> bool" where
  "is_record (Obj kvs) =
     (distinct (map fst kvs) \<and> list_all (\<lambda>(k, v). \<not> reserved k \<and> is_field v) kvs)"
| "is_record v = False"
| "is_field (Obj kvs) = is_record (Obj kvs)"
| "is_field (Arr es ps) = (ps = [] \<and> list_all is_record es)"
| "is_field Null = False"
| "is_field Func = False"
| "is_field v = True"

text \<open>
  The shape a schema declares for a data tree: a record of the declared fields, whether the
  data has them or not; an object field with fields is a record again, an array field is a
  sequence with one record per element of the data's array, every other field is a leaf.
  \<open>wf_fields\<close>: the field names of each object schema are distinct, and none is \<open>_touched\<close>
  or \<open>_errors\<close>.
\<close>

fun elements_of :: "jsval \<Rightarrow> jsval list" where
  "elements_of (Arr es ps) = es"
| "elements_of v = []"

fun schemaShapeOf :: "(string \<times> yschema) list \<Rightarrow> jsval \<Rightarrow> shape"
  and fieldShapeOf :: "yschema \<Rightarrow> jsval \<Rightarrow> shape" where
  "schemaShapeOf fs data = SRecord (map (\<lambda>(k, s). (k, fieldShapeOf s (read data k))) fs)"
| "fieldShapeOf YScalar v = SLeaf"
| "fieldShapeOf (YObject fs) v = (if fs = [] then SLeaf else schemaShapeOf fs v)"
| "fieldShapeOf (YArray inner) v = SSeq (map (schemaShapeOf inner) (elements_of v))"

fun wf_fields :: "(string \<times> yschema) list \<Rightarrow> bool" and wf_field :: "yschema \<Rightarrow> bool" where
  "wf_fields fs =
     (distinct (map fst fs) \<and> list_all (\<lambda>(k, s). \<not> reserved k \<and> wf_field s) fs)"
| "wf_field YScalar = True"
| "wf_field (YObject fs) = wf_fields fs"
| "wf_field (YArray inner) = wf_fields inner"

text \<open>
  A metadata node of a given shape, read off the node by the shape. A leaf is an object that
  carries \<open>_touched\<close> and has no property besides \<open>_touched\<close> and \<open>_errors\<close>; a record has,
  besides these two, exactly the fields of the shape, each holding a node of its shape; a
  sequence is an array with one element per entry of the shape. (A validation pass gives
  every record stored under a field name a \<open>_touched\<close> of its own, so \<open>metadataShapeOf\<close>,
  which tells the leaves by this property, reads trees as the builder makes them from the
  empty state.)
\<close>

fun has_shape :: "jsval \<Rightarrow> shape \<Rightarrow> bool" where
  "has_shape (Obj mkvs) SLeaf =
     (list_all (\<lambda>(k, c). reserved k) mkvs \<and> ''_touched'' \<in> set (map fst mkvs))"
| "has_shape (Obj mkvs) (SRecord xs) =
     (list_all (\<lambda>(k, c). reserved k \<or> k \<in> set (map fst xs)) mkvs \<and>
      list_all (\<lambda>(k, x). k \<in> set (map fst mkvs) \<and> has_shape (lookup mkvs k) x) xs)"
| "has_shape (Arr mes mps) (SSeq xs) = list_all2 has_shape mes xs"
| "has_shape m s = False"

text \<open>
  \<open>fits c s\<close>: the previous node \<open>c\<close> has no field beyond the shape \<open>s\<close>. The builder never
  removes a property from the state it is given: the node for a record starts as the copy
  \<open>Object.assign({}, state[key])\<close> of the previous node, the node for the element \<open>i\<close> of a
  sequence as the copy of \<open>state[key]?.[i]\<close>, and a leaf is made anew. So a field that the
  previous node has at a record of the shape stays in the rebuilt tree.
\<close>

function fits :: "jsval \<Rightarrow> shape \<Rightarrow> bool" where
  "fits c (SRecord xs) =
     (list_all (\<lambda>(k, p). reserved k \<or> k \<in> set (map fst xs)) (own_props c) \<and>
      list_all (\<lambda>(k, x). fits (lookup (own_props c) k) x) xs)"
| "fits c (SSeq xs) = list_all (\<lambda>(i, x). fits (read c (show_nat i)) x) (enumerate 0 xs)"
| "fits c SLeaf = True"
  by pat_completeness auto

termination
  apply (relation "measure (\<lambda>(c, s). size s)")
    apply (auto simp: in_set_enumerate_eq)
  subgoal for xs k x by (induction xs) auto
  subgoal for xs i
    by (induction xs arbitrary: i) (auto simp: nth_Cons split: nat.splits, fastforce)
  done




text \<open>
  Error lists in a metadata tree. A leaf is an object without children; \<open>leaf_has_errors\<close>
  holds when some leaf of the tree has a non-empty \<open>_errors\<close>, \<open>has_errors\<close> when any object or
  array of the tree has one.
\<close>

fun nonempty_errors :: "jsval \<Rightarrow> bool" where
  "nonempty_errors (Arr (e # es) ps) = True"
| "nonempty_errors v = False"


fun has_errors :: "jsval \<Rightarrow> bool" where
  "has_errors (Obj kvs) =
     (nonempty_errors (lookup kvs ''_errors'') \<or> list_ex (\<lambda>(k, c). has_errors c) kvs)"
| "has_errors (Arr es ps) =
     (nonempty_errors (lookup ps ''_errors'') \<or> list_ex has_errors es \<or>
      list_ex (\<lambda>(k, c). has_errors c) ps)"
| "has_errors v = False"






section \<open>Example forms\<close>

text \<open>The stores as \<open>createForm\<close> creates them, before \<open>createState\<close>.\<close>

definition new_form :: "jsval \<Rightarrow> form" where
  "new_form initialValues =
     \<lparr>form_values = initialValues, form_state = Obj [], state_sets = 0,
      isValid = False, isTouched = False\<rparr>"

text \<open>
  A schema with the given fields whose \<open>validateSync\<close> reports the given violations, and one
  that accepts every value.
\<close>

definition reporting :: "(string \<times> yschema) list \<Rightarrow> violation list \<Rightarrow> schema" where
  "reporting fs errs = \<lparr>schema_fields = fs, validateSync = (\<lambda>d. Fails errs)\<rparr>"

definition accepting :: "(string \<times> yschema) list \<Rightarrow> schema" where
  "accepting fs = \<lparr>schema_fields = fs, validateSync = (\<lambda>d. Passes)\<rparr>"

text \<open>
  \<open>yup.object().shape({ profile: yup.object().shape({ address: yup.object().shape({ city:
  yup.string() }) }) })\<close>: an object field inside an object field.
\<close>

definition profile_fields :: "(string \<times> yschema) list" where
  "profile_fields = [(''profile'', YObject [(''address'', YObject [(''city'', YScalar)])])]"

text \<open>
  The form of \<open>{ title: '' }\<close> under \<open>{ title: yup.string().required() }\<close>, as built, and
  three violations: of \<open>title\<close>, of a field \<open>ghost.name\<close> that the metadata tree does not
  have, and one without a path.
\<close>

definition title_fields :: "(string \<times> yschema) list" where
  "title_fields = [(''title'', YScalar)]"

definition title_form :: form where
  "title_form =
     \<lparr>form_values = Obj [(''title'', Str [])],
      form_state = Obj [(''title'', leaf (Bool False))],
      state_sets = 1, isValid = False, isTouched = False\<rparr>"

definition title_required :: violation where
  "title_required = \<lparr>path = Some ''title'', message = ''title is a required field''\<rparr>"

definition ghost_required :: violation where
  "ghost_required =
     \<lparr>path = Some ''ghost.name'', message = ''ghost.name is a required field''\<rparr>"

definition pathless :: violation where
  "pathless = \<lparr>path = None, message = ''the form is invalid''\<rparr>"

text \<open>
  \<open>{ users: yup.array().of(yup.object().shape({ name: yup.string().required() })) }\<close>, with
  a validator that reports the first user's empty name, and the violation of
  \<open>yup.array().min(2)\<close>.
\<close>

definition users_fields :: "(string \<times> yschema) list" where
  "users_fields = [(''users'', YArray [(''name'', YScalar)])]"

definition names_schema :: schema where
  "names_schema =
     \<lparr>schema_fields = users_fields,
      validateSync =
        (\<lambda>d. if read (read (read d ''users'') ''0'') ''name'' = Str []
              then Fails [\<lparr>path = Some ''users[0].name'',
                           message = ''users[0].name is a required field''\<rparr>]
              else Passes)\<rparr>"

definition nameless_users :: jsval where
  "nameless_users = Obj [(''users'', Arr [Obj [(''name'', Str [])]] [])]"



text \<open>
  \<open>{ tags: yup.array().of(yup.string().min(3)) }\<close> on \<open>{ tags: ['ab'] }\<close>: the inner type
  has no fields, and the violation is addressed to the element.
\<close>

definition tags_fields :: "(string \<times> yschema) list" where
  "tags_fields = [(''tags'', YArray [])]"

definition short_tag :: violation where
  "short_tag =
     \<lparr>path = Some ''tags[0]'', message = ''tags[0] must be at least 3 characters''\<rparr>"

definition tags_schema :: schema where
  "tags_schema = reporting tags_fields [short_tag]"

definition tags_form :: form where
  "tags_form =
     fst (resetForm (Some tags_schema) (Obj [(''tags'', Arr [Str ''ab''] [])])
            (new_form (Obj [])))"








text \<open>
  A form without schema built for \<open>{ title, note }\<close>, and the same after the field \<open>note\<close>
  has been removed from the data.
\<close>

definition noted_form :: form where
  "noted_form =
     fst (resetForm None (Obj [(''title'', Str ''x''), (''note'', Str ''y'')])
            (new_form (Obj [])))"

definition note_removed_form :: form where
  "note_removed_form = values_set None (Obj [(''title'', Str ''x'')]) noted_form"

text \<open>
  The copy \<open>JSON.parse(JSON.stringify(state))\<close> of a tree for \<open>{ title, users: [{ name }] }\<close>
  whose fields have been touched, and data that has since gained a user and a field.
\<close>

definition touched_tree :: "(string \<times> jsval) list" where
  "touched_tree =
     [(''title'', Obj [(''_touched'', Bool True), (''_errors'', Arr [] [])]),
      (''users'', Arr [Obj [(''name'', Obj [(''_touched'', Bool True), (''_errors'', Arr [] [])])]]
                     [])]"

definition grown_data :: jsval where
  "grown_data =
     Obj [(''title'', Str ''x''),
          (''users'', Arr [Obj [(''name'', Str ''ann'')], Obj [(''name'', Str ''bob'')]] []),
          (''note'', Str ''n'')]"

text \<open>
  Forms built for \<open>{ title, users: [{ name }] }\<close>, without a schema and with one, whose data
  has then become the grown data (with a schema, \<open>values.set\<close> runs a pass).
\<close>

definition small_data :: jsval where
  "small_data = Obj [(''title'', Str ''x''), (''users'', Arr [Obj [(''name'', Str ''ann'')]] [])]"

definition grown_form :: form where
  "grown_form = values_set None grown_data (fst (resetForm None small_data (new_form (Obj []))))"

definition grown_schema_form :: form where
  "grown_schema_form =
     values_set (Some (accepting (users_fields @ title_fields))) grown_data
       (fst (resetForm (Some (accepting (users_fields @ title_fields))) small_data
               (new_form (Obj []))))"

section \<open>Property lists and index keys\<close>

lemma lookup_set_entry_same: "lookup (set_entry k v kvs) k = v"
  by (induction kvs) auto

lemma lookup_set_entry_other: "k' \<noteq> k \<Longrightarrow> lookup (set_entry k v kvs) k' = lookup kvs k'"
  by (induction kvs) auto

lemma list_all_set_entry:
  "list_all P kvs \<Longrightarrow> P (k, v) \<Longrightarrow> list_all P (set_entry k v kvs)"
  by (induction kvs) auto

lemma set_entry_fresh: "k \<notin> fst ` set kvs \<Longrightarrow> set_entry k v kvs = kvs @ [(k, v)]"
  by (induction kvs) auto

lemma show_nat_last: "of_char (last (show_nat n)) = 48 + n mod 10"
  by (subst show_nat.simps) (auto simp: Suc_le_eq mod_less)


lemma show_nat_not_errors: "show_nat n \<noteq> ''_errors''"
proof
  assume "show_nat n = ''_errors''"
  then have "of_char (last (show_nat n)) = (of_char (last ''_errors'') :: nat)" by simp
  then show False by (simp add: show_nat_last)
qed

lemma index_of_errors: "index_of n ''_errors'' = None"
  by (simp add: index_of_def find_None_iff show_nat_not_errors)


lemma parse_index_errors: "parse_index ''_errors'' = None"
  by (simp add: parse_index_def is_digit_def)

lemma keys_set_entry: "fst ` set (set_entry k v kvs) = insert k (fst ` set kvs)"
proof (induction kvs)
  case Nil
  then show ?case by simp
next
  case (Cons x kvs)
  obtain a b where x: "x = (a, b)" by (cases x)
  from Cons show ?case by (cases "a = k") (auto simp: x)
qed

lemma set_entry_twice: "set_entry k a (set_entry k b kvs) = set_entry k a kvs"
  by (induction kvs) auto


lemma keys_shapes: "map fst (map (\<lambda>(k, v). (k, f k v)) kvs) = map fst kvs"
  by (induction kvs) auto





text \<open>Storing an array under a key, and reading a key that the state does not have.\<close>

lemma store_array_Obj:
  "store_array (Obj kvs) key new =
     Some (Obj (set_entry key (Arr new [(''_errors'', no_errors)])
                  (set_entry key (Arr new []) kvs)))"
  by (simp add: store_array_def get_prop_def lookup_set_entry_same index_of_errors
      parse_index_errors)

lemma lookup_fresh: "key \<notin> set (map fst kvs) \<Longrightarrow> lookup kvs key = Undefined"
  by (induction kvs) auto

lemma set_entry_snoc_same:
  "key \<notin> set (map fst acc) \<Longrightarrow> set_entry key a (acc @ [(key, b)]) = acc @ [(key, a)]"
  by (induction acc) auto

lemma store_array_fresh:
  "key \<notin> set (map fst acc) \<Longrightarrow>
   store_array (Obj acc) key new = Some (Obj (acc @ [(key, Arr new [(''_errors'', no_errors)])]))"
  by (simp add: store_array_Obj set_entry_fresh set_entry_snoc_same)

lemma as_elements_read:
  "as_elements (let d = v in if truthy d then d else Arr [] []) = Some elems \<Longrightarrow>
   elements_of v = elems"
  by (cases v) (auto simp: as_elements_def split: if_splits)



lemma those_map_rel:
  "(\<And>x. x \<in> set xs \<Longrightarrow> \<exists>y. f x = Some y \<and> R x y) \<Longrightarrow>
   \<exists>ys. those (map f xs) = Some ys \<and> list_all2 R xs ys"
proof (induction xs)
  case Nil
  then show ?case by simp
next
  case (Cons x xs)
  then obtain y where y: "f x = Some y" "R x y" by auto
  from Cons obtain ys where "those (map f xs) = Some ys" "list_all2 R xs ys" by auto
  with y show ?case by simp
qed

lemma those_map_all2:
  "those (map f xs) = Some ys \<Longrightarrow> list_all2 (\<lambda>x y. f x = Some y) xs ys"
  by (induction xs arbitrary: ys) (auto split: option.splits)






section \<open>The schema-driven builder and absent data\<close>

text \<open>
  C6. The claim: with a schema, the builder returns for every data tree, also when fields the
  schema declares are absent from the data at any depth. The array branch reads the data with
  \<open>data?.[key]\<close>; the object branch reads \<open>data[key]\<close> and passes it down as the data of the
  nested call. For an object field nested in an object field that is absent, the nested call
  has \<open>undefined\<close> as its data and its own \<open>data[key]\<close> throws: on the data \<open>{}\<close> and the
  schema \<open>profile.address.city\<close> the builder does not return, while the same data with the
  field \<open>profile: {}\<close> present is built.
\<close>

theorem createValidatedState_throws_on_absent_nested_object:
  "createValidatedState (Obj []) profile_fields (Obj []) = None \<and>
   createValidatedState (Obj [(''profile'', Obj [])]) profile_fields (Obj []) =
     Some (Obj [(''profile'',
             Obj [(''address'', Obj [(''city'', leaf (Bool False)), (''_errors'', no_errors)]),
                  (''_errors'', no_errors)])])"
  by (simp add: profile_fields_def get_prop_def object_assign_def with_errors_def leaf_def
      or_false_def)

section \<open>The loop over the violations\<close>

text \<open>Violations that apply are consumed one by one; the loop goes on from the tree they leave.\<close>

lemma applyErrors_after_applied:
  "applyAll ti pre st0 = Some st \<Longrightarrow> applyErrors ti (pre @ rest) st0 = applyErrors ti rest st"
  by (induction pre arbitrary: st0) (auto split: step.splits)

text \<open>
  An unresolved violation ends the loop: the result does not depend on the violations after
  it.
\<close>

lemma applyErrors_stops_at_unresolved:
  assumes "applyAll touchInvalid pre st0 = Some st"
    and "applyViolation touchInvalid st e = Unresolved"
  shows "applyErrors touchInvalid (pre @ e # post) st0 = (st, True)"
  using assms by (simp add: applyErrors_after_applied)

text \<open>
  C1. The claim: a violation whose path has a missing intermediate segment is dropped alone,
  and every other violation of the list whose path resolves still has its message appended.
  The source leaves the loop over the violations with \<open>break\<close> at the first such violation.
  On the form of \<open>{ title: '' }\<close>, with the violations of \<open>ghost.name\<close> and of \<open>title\<close> in
  this order, the message of \<open>title\<close> is not appended; in the other order it is.
\<close>

theorem setErrors_break_drops_later_violations:
  "read (read (form_state
           (validateForm (Some (reporting title_fields [ghost_required, title_required]))
              HNone title_form)) ''title'') ''_errors'' = Arr [] [] \<and>
   read (read (form_state
           (validateForm (Some (reporting title_fields [title_required, ghost_required]))
              HNone title_form)) ''title'') ''_errors'' =
     Arr [Str ''title is a required field''] []"
  by code_simp

text \<open>
  C5, as the claim states it: after a failure inside the error application the metadata tree
  is the tree before the pass. The violation without a path throws after \<open>clearErrors\<close> has
  run and after the violation of \<open>title\<close> has been applied, both on the object the store
  holds: the tree is not the one before the pass.
\<close>

theorem setErrors_failure_changes_tree:
  "form_state (validateForm (Some (reporting title_fields [title_required, pathless]))
                 HNone title_form) \<noteq> form_state title_form"
  by code_simp

text \<open>
  C5, amended. When a violation throws, the failure is caught: \<open>validateForm\<close> returns with
  \<open>isValid\<close> false and \<open>state.set\<close> is not called (\<open>state_sets\<close> is as before), but the tree
  in the store is the cleared tree with the violations before the failing one applied.
\<close>

theorem validateForm_failure_keeps_applied_prefix:
  assumes "validateSync s (form_values f) = Fails (pre @ e # post)"
    and "applyAll (h = HAll \<or> h = HErrors) pre (clearErrors (h = HAll) (form_state f)) = Some st"
    and "applyViolation (h = HAll \<or> h = HErrors) st e = Raised"
  shows "validateForm (Some s) h f = f\<lparr>form_state := st, isValid := False\<rparr>"
  using assms
  by (simp add: validateForm_def validate_def setErrors_def applyErrors_after_applied)

theorem validateForm_failure_keeps_applied_prefix_witness:
  "validateForm (Some (reporting title_fields [title_required, pathless])) HNone title_form =
   title_form\<lparr>form_state :=
                 Obj [(''title'', Obj [(''_touched'', Bool False),
                                       (''_errors'', Arr [Str ''title is a required field''] [])])],
              isValid := False\<rparr>"
proof -
  have a: "validateSync (reporting title_fields [title_required, pathless])
             (form_values title_form) = Fails ([title_required] @ pathless # [])"
    by (simp add: reporting_def)
  have b: "applyAll (HNone = HAll \<or> HNone = HErrors) [title_required]
             (clearErrors (HNone = HAll) (form_state title_form)) =
           Some (Obj [(''title'', Obj [(''_touched'', Bool False),
                                       (''_errors'', Arr [Str ''title is a required field''] [])])])"
    by code_simp
  have c: "applyViolation (HNone = HAll \<or> HNone = HErrors)
             (Obj [(''title'', Obj [(''_touched'', Bool False),
                                    (''_errors'', Arr [Str ''title is a required field''] [])])])
             pathless = Raised"
    by code_simp
  show ?thesis
    using validateForm_failure_keeps_applied_prefix [OF a b c] .
qed

section \<open>What a pass clears\<close>



text \<open>
  The object branch of \<open>clearErrors\<close> keeps a \<open>_touched\<close> that is true, whatever \<open>touch\<close> is.
\<close>

lemma lookup_reserved_clearErrors:
  "reserved k \<Longrightarrow>
   lookup (map (\<lambda>(k, c). if reserved k then (k, c) else (k, clearKey touch c)) kvs) k =
   lookup kvs k"
  by (induction kvs) auto

lemma clearKey_keeps_touched_of_object:
  assumes "lookup kvs ''_touched'' = Bool True"
  shows "read (clearKey touch (Obj kvs)) ''_touched'' = Bool True"
proof -
  have "reserved ''_touched''" by (simp add: reserved_def)
  with assms show ?thesis
    by (simp add: lookup_reserved_clearErrors lookup_set_entry_same lookup_set_entry_other)
qed

text \<open>
  C2. The claim: a \<open>_touched\<close> that is true before a validation pass is true after it, at every
  node. For an array \<open>clearErrors\<close> first stores the mapped array and then reads \<open>_touched\<close>
  back from it; the new array has none, so the flag becomes \<open>touch\<close>, while the object branch
  reads the old object and keeps a boolean. After \<open>validateForm('all')\<close> on a valid form the
  array \<open>users\<close> is touched; \<open>validateForm('none')\<close> then resets it.
\<close>

theorem validateForm_resets_touched_of_array:
  "(let s = Some (accepting users_fields);
        f0 = fst (resetForm s (Obj [(''users'', Arr [] [])]) (new_form (Obj [])));
        f1 = validateForm s HAll f0;
        f2 = validateForm s HNone f1
    in read (read (form_state f1) ''users'') ''_touched'' = Bool True \<and>
       read (read (form_state f2) ''users'') ''_touched'' = Bool False)"
  by code_simp

text \<open>
  C8. The claim: \<open>validateForm('none')\<close> twice, the data unchanged, leaves the same error
  lists as once. \<open>clearErrors\<close> maps the elements of an array through itself, which loops
  over their children and never resets their own \<open>_errors\<close>; every other kind of node is
  reset. A violation addressed to an array element is therefore appended again by each pass.
\<close>

theorem validateForm_twice_appends_element_error_twice:
  "(let f1 = validateForm (Some tags_schema) HNone tags_form;
        f2 = validateForm (Some tags_schema) HNone f1
    in read (read (read (form_state f1) ''tags'') ''0'') ''_errors'' =
         Arr [Str ''tags[0] must be at least 3 characters''] [] \<and>
       read (read (read (form_state f2) ''tags'') ''0'') ''_errors'' =
         Arr [Str ''tags[0] must be at least 3 characters'',
              Str ''tags[0] must be at least 3 characters''] [])"
  by code_simp





















section \<open>What the builder makes from an empty state\<close>

































section \<open>The shape of what the builder makes\<close>

lemma metadataShapeOf_leaf: "metadataShapeOf (leaf t) = SLeaf"
  by (simp add: leaf_def)

lemma unreserved_children:
  "\<forall>k\<in>set (map fst kvs). \<not> reserved k \<Longrightarrow>
   concat (map (\<lambda>(k, c). if reserved k then [] else [(k, metadataShapeOf c)]) kvs) =
   map (\<lambda>(k, c). (k, metadataShapeOf c)) kvs"
  by (induction kvs) auto

lemma metadataShapeOf_record:
  assumes "\<forall>k\<in>set (map fst kvs). \<not> reserved k"
  shows "metadataShapeOf (Obj kvs) = SRecord (map (\<lambda>(k, c). (k, metadataShapeOf c)) kvs)"
proof -
  from assms have "''_touched'' \<notin> set (map fst kvs)" by (auto simp: reserved_def)
  with assms show ?thesis by (simp add: unreserved_children)
qed

lemma metadataShapeOf_with_errors:
  assumes "\<forall>k\<in>set (map fst kvs). \<not> reserved k"
  shows "metadataShapeOf (with_errors (Obj kvs)) = metadataShapeOf (Obj kvs)"
proof -
  have r: "reserved ''_errors''" "reserved ''_touched''" by (simp_all add: reserved_def)
  with assms have t: "''_touched'' \<notin> set (map fst kvs)" and e: "''_errors'' \<notin> set (map fst kvs)"
    by auto
  from e have "with_errors (Obj kvs) = Obj (kvs @ [(''_errors'', no_errors)])"
    by (simp add: with_errors_def set_entry_fresh)
  with t r show ?thesis by simp
qed

lemma list_all2_map_eq: "list_all2 (\<lambda>x y. g y = h x) xs ys \<Longrightarrow> map g ys = map h xs"
  by (induction rule: list_all2_induct) auto

lemma entries_by_key:
  "map fst built = map fst kvs \<Longrightarrow> map (\<lambda>e. f (snd e)) built = map g kvs \<Longrightarrow>
   map (\<lambda>(k, c). (k, f c)) built = map (\<lambda>e. (fst e, g e)) kvs"
proof (induction built arbitrary: kvs)
  case Nil
  then show ?case by simp
next
  case (Cons b built)
  then obtain x kvs' where "kvs = x # kvs'" by (cases kvs) auto
  with Cons show ?case by (cases b; cases x) auto
qed

lemma rawState_shape:
  "is_record data \<longrightarrow> state = Obj [] \<longrightarrow>
     (\<exists>built. createRawState data state = Some (Obj built) \<and>
               (\<forall>k\<in>set (map fst built). \<not> reserved k) \<and>
               metadataShapeOf (Obj built) = shapeOf data)"
  and "\<forall>acc. state = Obj acc \<longrightarrow> distinct (map fst kvs) \<longrightarrow>
        set (map fst acc) \<inter> set (map fst kvs) = {} \<longrightarrow>
        list_all (\<lambda>(k, v). \<not> reserved k \<and> is_field v) kvs \<longrightarrow>
        (\<exists>built. rawKeys kvs state = Some (Obj (acc @ built)) \<and>
                  map fst built = map fst kvs \<and>
                  map (\<lambda>e. metadataShapeOf (snd e)) built = map (\<lambda>e. shapeOf (snd e)) kvs)"
  and "rawElems i es state = rawElems i es state"
  and "\<forall>acc. state = Obj acc \<longrightarrow> key \<notin> set (map fst acc) \<longrightarrow> is_field v \<longrightarrow>
        (\<exists>n. rawKey key v state = Some (Obj (acc @ [(key, n)])) \<and>
              metadataShapeOf n = shapeOf v)"
proof (induction data state and kvs state and i es state and key v state
    rule: createRawState_rawKeys_rawElems_rawKey.induct)
  case (1 kvs state)
  show ?case
  proof (intro impI)
    assume rec: "is_record (Obj kvs)" and state: "state = Obj []"
    with 1 obtain built where
      b: "rawKeys kvs state = Some (Obj built)" "map fst built = map fst kvs"
         "map (\<lambda>e. metadataShapeOf (snd e)) built = map (\<lambda>e. shapeOf (snd e)) kvs"
      by auto
    from rec have "\<forall>k\<in>set (map fst kvs). \<not> reserved k" by (auto simp: list_all_iff)
    with b(2) have unres: "\<forall>k\<in>set (map fst built). \<not> reserved k" by simp
    then have "metadataShapeOf (Obj built) = SRecord (map (\<lambda>(k, c). (k, metadataShapeOf c)) built)"
      by (rule metadataShapeOf_record)
    also have "\<dots> = shapeOf (Obj kvs)"
      using entries_by_key [OF b(2) b(3)] by (simp add: case_prod_beta)
    finally show "\<exists>built. createRawState (Obj kvs) state = Some (Obj built) \<and>
                    (\<forall>k\<in>set (map fst built). \<not> reserved k) \<and>
                    metadataShapeOf (Obj built) = shapeOf (Obj kvs)"
      using b(1) unres by simp
  qed
next
  case (6 key v rest state)
  show ?case
  proof (intro allI impI)
    fix acc
    assume state: "state = Obj acc"
      and dist: "distinct (map fst ((key, v) # rest))"
      and disj: "set (map fst acc) \<inter> set (map fst ((key, v) # rest)) = {}"
      and ok: "list_all (\<lambda>(k, v). \<not> reserved k \<and> is_field v) ((key, v) # rest)"
    from "6.IH"(1) state disj ok obtain n where
      n: "rawKey key v state = Some (Obj (acc @ [(key, n)]))" "metadataShapeOf n = shapeOf v"
      by auto
    from dist disj have "set (map fst (acc @ [(key, n)])) \<inter> set (map fst rest) = {}"
      by auto
    with "6.IH"(2) [OF n(1)] dist ok obtain built where
      b: "rawKeys rest (Obj (acc @ [(key, n)])) = Some (Obj ((acc @ [(key, n)]) @ built))"
         "map fst built = map fst rest"
         "map (\<lambda>e. metadataShapeOf (snd e)) built = map (\<lambda>e. shapeOf (snd e)) rest"
      by auto
    show "\<exists>built. rawKeys ((key, v) # rest) state = Some (Obj (acc @ built)) \<and>
            map fst built = map fst ((key, v) # rest) \<and>
            map (\<lambda>e. metadataShapeOf (snd e)) built = map (\<lambda>e. shapeOf (snd e)) ((key, v) # rest)"
      using n b by (intro exI [of _ "(key, n) # built"]) simp
  qed
next
  case (9 key es ps state)
  show ?case
  proof (intro allI impI)
    fix acc
    assume state: "state = Obj acc" and fresh: "key \<notin> set (map fst acc)"
      and field: "is_field (Arr es ps)"
    from field have ps: "ps = []" and recs: "list_all is_record es" by simp_all
    have prev: "get_prop state key = Some Undefined"
      by (simp add: state get_prop_def lookup_fresh [OF fresh])
    let ?f = "\<lambda>(index, value).
                get_prop state key \<bind>
                  (\<lambda>prev. createRawState value (object_assign (read prev (show_nat index))))"
    have step: "\<exists>y. ?f x = Some y \<and> metadataShapeOf y = shapeOf (snd x)"
      if "x \<in> set (enumerate 0 es)" for x
    proof -
      obtain index e where x: "x = (index, e)" by (cases x)
      from that x have "e \<in> set es" by (auto simp: in_set_enumerate_eq)
      with recs have "is_record e" by (simp add: list_all_iff)
      with "9.IH" [OF that x [symmetric] prev] show ?thesis
        by (auto simp: x prev object_assign_def)
    qed
    have "\<exists>new. those (map ?f (enumerate 0 es)) = Some new \<and>
                list_all2 (\<lambda>x y. metadataShapeOf y = shapeOf (snd x)) (enumerate 0 es) new"
      by (rule those_map_rel) (rule step)
    then obtain new where
      new: "those (map ?f (enumerate 0 es)) = Some new"
      and "list_all2 (\<lambda>x y. metadataShapeOf y = shapeOf (snd x)) (enumerate 0 es) new"
      by blast
    have "map (\<lambda>x. shapeOf (snd x)) (enumerate 0 es) = map shapeOf es"
      using map_map [of shapeOf snd "enumerate 0 es"] by (simp add: comp_def)
    with list_all2_map_eq [OF \<open>list_all2 _ _ new\<close>]
    have "map metadataShapeOf new = map shapeOf es"
      by simp
    with new show "\<exists>n. rawKey key (Arr es ps) state = Some (Obj (acc @ [(key, n)])) \<and>
              metadataShapeOf n = shapeOf (Arr es ps)"
      by (simp add: state store_array_fresh [OF fresh])
  qed
next
  case (10 key kvs state)
  show ?case
  proof (intro allI impI)
    fix acc
    assume state: "state = Obj acc" and fresh: "key \<notin> set (map fst acc)"
      and field: "is_field (Obj kvs)"
    have prev: "get_prop state key = Some Undefined"
      by (simp add: state get_prop_def lookup_fresh [OF fresh])
    from field have rec: "is_record (Obj kvs)" by simp
    from "10.IH" [OF prev] rec obtain built where
      b: "createRawState (Obj kvs) (Obj []) = Some (Obj built)"
         "\<forall>k\<in>set (map fst built). \<not> reserved k"
         "metadataShapeOf (Obj built) = shapeOf (Obj kvs)"
      by (auto simp: object_assign_def simp del: createRawState.simps metadataShapeOf.simps
          shapeOf.simps is_record.simps)
    from b(2) b(3) have "metadataShapeOf (with_errors (Obj built)) = shapeOf (Obj kvs)"
      by (simp only: metadataShapeOf_with_errors)
    with b(1) show "\<exists>n. rawKey key (Obj kvs) state = Some (Obj (acc @ [(key, n)])) \<and>
              metadataShapeOf n = shapeOf (Obj kvs)"
      by (simp add: state get_prop_def lookup_fresh [OF fresh] object_assign_def
          set_entry_fresh [OF fresh [simplified]]
          del: createRawState.simps metadataShapeOf.simps shapeOf.simps)
  qed
qed (auto simp: set_entry_fresh metadataShapeOf_leaf)


lemma built_record_shape:
  assumes "map fst built = map fst fs" and "\<forall>k\<in>set (map fst fs). \<not> reserved k"
    and "map (\<lambda>e. metadataShapeOf (snd e)) built = map (\<lambda>(k, s). fieldShapeOf s (read d k)) fs"
  shows "metadataShapeOf (Obj built) = schemaShapeOf fs d"
proof -
  from assms(1,2) have "\<forall>k\<in>set (map fst built). \<not> reserved k" by simp
  then have "metadataShapeOf (Obj built) = SRecord (map (\<lambda>(k, c). (k, metadataShapeOf c)) built)"
    by (rule metadataShapeOf_record)
  also have "\<dots> = schemaShapeOf fs d"
    using entries_by_key [OF assms(1) assms(3)] by (simp add: case_prod_beta)
  finally show ?thesis .
qed

lemma wf_fields_unreserved: "wf_fields fs \<Longrightarrow> \<forall>k\<in>set (map fst fs). \<not> reserved k"
  by (auto simp: list_all_iff)

lemma validatedState_shape:
  "\<forall>acc st. state = Obj acc \<longrightarrow> wf_fields fs \<longrightarrow>
     set (map fst acc) \<inter> set (map fst fs) = {} \<longrightarrow>
     createValidatedState data fs state = Some st \<longrightarrow>
     (\<exists>built. st = Obj (acc @ built) \<and> map fst built = map fst fs \<and>
        map (\<lambda>e. metadataShapeOf (snd e)) built =
        map (\<lambda>(k, s). fieldShapeOf s (read data k)) fs)"
proof (induction data fs state rule: createValidatedState.induct)
  case (1 data state)
  then show ?case by simp
next
  case (2 data key inner rest state)
  show ?case
  proof (intro allI impI)
    fix acc st
    assume state: "state = Obj acc" and wf: "wf_fields ((key, YArray inner) # rest)"
      and disj: "set (map fst acc) \<inter> set (map fst ((key, YArray inner) # rest)) = {}"
      and run: "createValidatedState data ((key, YArray inner) # rest) state = Some st"
    from disj have fresh: "key \<notin> set (map fst acc)" by auto
    have prev: "get_prop state key = Some Undefined"
      by (simp add: state get_prop_def lookup_fresh [OF fresh])
    let ?f = "\<lambda>(index, value).
                get_prop state key \<bind>
                  (\<lambda>prev. createValidatedState value inner
                             (object_assign (read prev (show_nat index))))"
    from run obtain elems new state1 where
      elems: "as_elements (let d = read data key in if truthy d then d else Arr [] []) = Some elems"
      and new: "those (map ?f (enumerate 0 elems)) = Some new"
      and sa: "store_array state key new = Some state1"
      and rest: "createValidatedState data rest state1 = Some st"
      by (auto simp: bind_eq_Some_conv)
    from wf have wfi: "wf_fields inner" by simp
    have "metadataShapeOf y = schemaShapeOf inner (snd x)"
      if "x \<in> set (enumerate 0 elems)" and "?f x = Some y" for x y
    proof -
      obtain index e where x: "x = (index, e)" by (cases x)
      from that(2) have y: "createValidatedState e inner (Obj []) = Some y"
        by (simp add: x prev object_assign_def)
      from "2.IH"(1) [OF elems that(1) x [symmetric] prev] wfi y obtain built where
        "y = Obj built" "map fst built = map fst inner"
        "map (\<lambda>e. metadataShapeOf (snd e)) built = map (\<lambda>(k, s). fieldShapeOf s (read e k)) inner"
        by (auto simp: object_assign_def simp del: wf_fields.simps)
      with built_record_shape [OF this(2) wf_fields_unreserved [OF wfi] this(3)] show ?thesis
        by (simp add: x del: schemaShapeOf.simps metadataShapeOf.simps)
    qed
    with those_map_all2 [OF new]
    have "list_all2 (\<lambda>x y. metadataShapeOf y = schemaShapeOf inner (snd x)) (enumerate 0 elems) new"
      by (auto simp: list_all2_conv_all_nth)
    from list_all2_map_eq [OF this]
    have shapes: "map metadataShapeOf new = map (schemaShapeOf inner) elems"
      using map_map [of "schemaShapeOf inner" snd "enumerate 0 elems"] by (simp add: comp_def)
    from sa have state1: "state1 = Obj (acc @ [(key, Arr new [(''_errors'', no_errors)])])"
      by (simp add: state store_array_fresh [OF fresh])
    from wf disj have "set (map fst (acc @ [(key, Arr new [(''_errors'', no_errors)])])) \<inter>
                       set (map fst rest) = {}"
      by auto
    with "2.IH"(2) [OF elems new sa] state1 wf rest obtain built where
      b: "st = Obj ((acc @ [(key, Arr new [(''_errors'', no_errors)])]) @ built)"
         "map fst built = map fst rest"
         "map (\<lambda>e. metadataShapeOf (snd e)) built = map (\<lambda>(k, s). fieldShapeOf s (read data k)) rest"
      by auto
    show "\<exists>built. st = Obj (acc @ built) \<and>
            map fst built = map fst ((key, YArray inner) # rest) \<and>
            map (\<lambda>e. metadataShapeOf (snd e)) built =
            map (\<lambda>(k, s). fieldShapeOf s (read data k)) ((key, YArray inner) # rest)"
      using b shapes as_elements_read [OF elems]
      by (intro exI [of _ "(key, Arr new [(''_errors'', no_errors)]) # built"])
         (simp del: schemaShapeOf.simps)
  qed
next
  case (3 data key fs rest state)
  show ?case
  proof (intro allI impI)
    fix acc st
    assume state: "state = Obj acc" and wf: "wf_fields ((key, YObject fs) # rest)"
      and disj: "set (map fst acc) \<inter> set (map fst ((key, YObject fs) # rest)) = {}"
      and run: "createValidatedState data ((key, YObject fs) # rest) state = Some st"
    from disj have fresh: "key \<notin> set (map fst acc)" by auto
    have prev: "get_prop state key = Some Undefined"
      by (simp add: state get_prop_def lookup_fresh [OF fresh])
    show "\<exists>built. st = Obj (acc @ built) \<and>
            map fst built = map fst ((key, YObject fs) # rest) \<and>
            map (\<lambda>e. metadataShapeOf (snd e)) built =
            map (\<lambda>(k, s). fieldShapeOf s (read data k)) ((key, YObject fs) # rest)"
    proof (cases "fs = []")
      case True
      let ?n = "leaf (or_false (read (read state key) ''_touched''))"
      from run True have
        sp: "set_prop state key ?n = Some (Obj (acc @ [(key, ?n)]))"
        and rest: "createValidatedState data rest (Obj (acc @ [(key, ?n)])) = Some st"
        by (simp_all add: state set_entry_fresh [OF fresh [simplified]])
      from wf disj have "set (map fst (acc @ [(key, ?n)])) \<inter> set (map fst rest) = {}"
        by auto
      with "3.IH"(3) [OF _ sp] True wf rest obtain built where
        "st = Obj ((acc @ [(key, ?n)]) @ built)" "map fst built = map fst rest"
        "map (\<lambda>e. metadataShapeOf (snd e)) built = map (\<lambda>(k, s). fieldShapeOf s (read data k)) rest"
        by auto
      with True show ?thesis
        by (intro exI [of _ "(key, ?n) # built"]) (simp add: metadataShapeOf_leaf)
    next
      case False
      from wf have wff: "wf_fields fs" by simp
      from run False obtain d sub where
        d: "get_prop data key = Some d"
        and sub: "createValidatedState d fs (Obj []) = Some sub"
        and rest: "createValidatedState data rest (Obj (acc @ [(key, with_errors sub)])) = Some st"
        by (auto simp: bind_eq_Some_conv get_prop_def [of "Obj acc"] lookup_fresh [OF fresh]
            object_assign_def state set_entry_fresh [OF fresh [simplified]])
      from d have dr: "d = read data key" by (auto simp: get_prop_def split: if_splits)
      from "3.IH"(1) [OF False d prev] wff sub obtain sb where
        sb: "sub = Obj sb" "map fst sb = map fst fs"
            "map (\<lambda>e. metadataShapeOf (snd e)) sb = map (\<lambda>(k, s). fieldShapeOf s (read d k)) fs"
        by (auto simp: object_assign_def simp del: wf_fields.simps)
      from sb(2) wf_fields_unreserved [OF wff] have "\<forall>k\<in>set (map fst sb). \<not> reserved k"
        by simp
      then have node: "metadataShapeOf (with_errors sub) = schemaShapeOf fs d"
        using built_record_shape [OF sb(2) wf_fields_unreserved [OF wff] sb(3)]
        by (simp only: sb(1) metadataShapeOf_with_errors)
      have sp: "set_prop state key (with_errors sub) = Some (Obj (acc @ [(key, with_errors sub)]))"
        by (simp add: state set_entry_fresh [OF fresh [simplified]])
      from wf disj have "set (map fst (acc @ [(key, with_errors sub)])) \<inter> set (map fst rest) = {}"
        by auto
      with "3.IH"(2) [OF False d prev _ sp] sub wf rest obtain built where
        "st = Obj ((acc @ [(key, with_errors sub)]) @ built)" "map fst built = map fst rest"
        "map (\<lambda>e. metadataShapeOf (snd e)) built = map (\<lambda>(k, s). fieldShapeOf s (read data k)) rest"
        by (auto simp: object_assign_def)
      with False node dr show ?thesis
        by (intro exI [of _ "(key, with_errors sub) # built"])
           (simp del: schemaShapeOf.simps metadataShapeOf.simps)
    qed
  qed
next
  case (4 data key rest state)
  show ?case
  proof (intro allI impI)
    fix acc st
    assume state: "state = Obj acc" and wf: "wf_fields ((key, YScalar) # rest)"
      and disj: "set (map fst acc) \<inter> set (map fst ((key, YScalar) # rest)) = {}"
      and run: "createValidatedState data ((key, YScalar) # rest) state = Some st"
    from disj have fresh: "key \<notin> set (map fst acc)" by auto
    let ?n = "leaf (or_false (read (read state key) ''_touched''))"
    from run have
      sp: "set_prop state key ?n = Some (Obj (acc @ [(key, ?n)]))"
      and rest: "createValidatedState data rest (Obj (acc @ [(key, ?n)])) = Some st"
      by (simp_all add: state set_entry_fresh [OF fresh [simplified]])
    from wf disj have "set (map fst (acc @ [(key, ?n)])) \<inter> set (map fst rest) = {}"
      by auto
    with "4.IH" [OF sp] wf rest obtain built where
      "st = Obj ((acc @ [(key, ?n)]) @ built)" "map fst built = map fst rest"
      "map (\<lambda>e. metadataShapeOf (snd e)) built = map (\<lambda>(k, s). fieldShapeOf s (read data k)) rest"
      by auto
    then show "\<exists>built. st = Obj (acc @ built) \<and>
            map fst built = map fst ((key, YScalar) # rest) \<and>
            map (\<lambda>e. metadataShapeOf (snd e)) built =
            map (\<lambda>(k, s). fieldShapeOf s (read data k)) ((key, YScalar) # rest)"
      by (intro exI [of _ "(key, ?n) # built"]) (simp add: metadataShapeOf_leaf)
  qed
qed

text \<open>
  Onto a previous tree: the builders keep every property of the state they are given and add
  or replace the nodes of the fields they visit. When the previous tree fits the shape, the
  rebuilt tree has it.
\<close>

lemma fits_object_assign: "fits (object_assign c) (SRecord xs) = fits c (SRecord xs)"
  by (simp add: object_assign_def)

lemma is_record_shape: "is_record e \<Longrightarrow> \<exists>xs. shapeOf e = SRecord xs"
  by (cases e) auto

lemma has_shape_leaf: "has_shape (leaf t) SLeaf"
  by (simp add: leaf_def reserved_def)

lemma has_shape_recordI:
  assumes "set (map fst built) \<subseteq> set (map fst acc) \<union> set (map fst xs)"
    and "list_all (\<lambda>(k, p). reserved k \<or> k \<in> set (map fst xs)) acc"
    and "list_all (\<lambda>(k, x). k \<in> set (map fst built) \<and> has_shape (lookup built k) x) xs"
  shows "has_shape (Obj built) (SRecord xs)"
proof -
  have "reserved k \<or> k \<in> set (map fst xs)" if "(k, c) \<in> set built" for k c
  proof -
    from that have "k \<in> set (map fst built)" by force
    with assms(1) have "k \<in> set (map fst acc) \<or> k \<in> set (map fst xs)" by auto
    with assms(2) show ?thesis by (auto simp: list_all_iff)
  qed
  then have "list_all (\<lambda>(k, c). reserved k \<or> k \<in> set (map fst xs)) built"
    by (auto simp: list_all_iff)
  with assms(3) show ?thesis by simp
qed

lemma has_shape_with_errors:
  assumes "has_shape (Obj sub) (SRecord xs)" and "\<forall>k\<in>set (map fst xs). \<not> reserved k"
  shows "has_shape (with_errors (Obj sub)) (SRecord xs)"
proof -
  have r: "reserved ''_errors''" by (simp add: reserved_def)
  from assms(1) have a: "list_all (\<lambda>(k, c). reserved k \<or> k \<in> set (map fst xs)) sub"
    and b: "list_all (\<lambda>(k, x). k \<in> set (map fst sub) \<and> has_shape (lookup sub k) x) xs"
    by simp_all
  from a r have "list_all (\<lambda>(k, c). reserved k \<or> k \<in> set (map fst xs))
                   (set_entry ''_errors'' no_errors sub)"
    by (intro list_all_set_entry) auto
  moreover have "k \<in> set (map fst (set_entry ''_errors'' no_errors sub)) \<and>
                 has_shape (lookup (set_entry ''_errors'' no_errors sub) k) x"
    if "(k, x) \<in> set xs" for k x
  proof -
    from that assms(2) r have "k \<noteq> ''_errors''" by force
    with that b show ?thesis
      by (auto simp: list_all_iff keys_set_entry lookup_set_entry_other)
  qed
  ultimately show ?thesis by (auto simp: with_errors_def list_all_iff)
qed

lemma rawState_rebuilt:
  "is_record data \<longrightarrow>
     (\<forall>skvs. state = Obj skvs \<longrightarrow> fits state (shapeOf data) \<longrightarrow>
        (\<exists>built. createRawState data state = Some (Obj built) \<and>
                  has_shape (Obj built) (shapeOf data)))"
  and "\<forall>acc. state = Obj acc \<longrightarrow> distinct (map fst kvs) \<longrightarrow>
        list_all (\<lambda>(k, v). \<not> reserved k \<and> is_field v \<and> fits (lookup acc k) (shapeOf v)) kvs \<longrightarrow>
        (\<exists>built. rawKeys kvs state = Some (Obj built) \<and>
                  set (map fst built) = set (map fst acc) \<union> set (map fst kvs) \<and>
                  (\<forall>k. k \<notin> set (map fst kvs) \<longrightarrow> lookup built k = lookup acc k) \<and>
                  list_all (\<lambda>(k, v). has_shape (lookup built k) (shapeOf v)) kvs)"
  and "rawElems i es state = rawElems i es state"
  and "\<forall>acc. state = Obj acc \<longrightarrow> is_field v \<longrightarrow> fits (lookup acc key) (shapeOf v) \<longrightarrow>
        (\<exists>n. rawKey key v state = Some (Obj (set_entry key n acc)) \<and>
              has_shape n (shapeOf v))"
proof (induction data state and kvs state and i es state and key v state
    rule: createRawState_rawKeys_rawElems_rawKey.induct)
  case (1 kvs state)
  show ?case
  proof (intro allI impI)
    fix skvs
    assume rec: "is_record (Obj kvs)" and state: "state = Obj skvs"
      and fits: "fits state (shapeOf (Obj kvs))"
    let ?xs = "map (\<lambda>(k, v). (k, shapeOf v)) kvs"
    from fits have f1: "list_all (\<lambda>(k, p). reserved k \<or> k \<in> set (map fst ?xs)) skvs"
      and f2: "list_all (\<lambda>(k, x). fits (lookup skvs k) x) ?xs"
      by (simp_all add: state)
    from f2 have "list_all (\<lambda>(k, v). fits (lookup skvs k) (shapeOf v)) kvs"
      by (auto simp: list_all_iff)
    with rec have
      "list_all (\<lambda>(k, v). \<not> reserved k \<and> is_field v \<and> fits (lookup skvs k) (shapeOf v)) kvs"
      by (auto simp: list_all_iff)
    with 1 state rec obtain built where
      b: "rawKeys kvs state = Some (Obj built)"
         "set (map fst built) = set (map fst skvs) \<union> set (map fst kvs)"
         "list_all (\<lambda>(k, v). has_shape (lookup built k) (shapeOf v)) kvs"
      by auto
    from b(2) have "set (map fst built) \<subseteq> set (map fst skvs) \<union> set (map fst ?xs)"
      unfolding keys_shapes by blast
    moreover from b(2,3) have
      "list_all (\<lambda>(k, x). k \<in> set (map fst built) \<and> has_shape (lookup built k) x) ?xs"
      by (force simp: list_all_iff)
    ultimately have "has_shape (Obj built) (SRecord ?xs)"
      using f1 by (intro has_shape_recordI [where acc = skvs])
    with b(1) show "\<exists>built. createRawState (Obj kvs) state = Some (Obj built) \<and>
                    has_shape (Obj built) (shapeOf (Obj kvs))"
      by simp
  qed
next
  case (6 key v rest state)
  show ?case
  proof (intro allI impI)
    fix acc
    assume state: "state = Obj acc"
      and dist: "distinct (map fst ((key, v) # rest))"
      and ok: "list_all (\<lambda>(k, v). \<not> reserved k \<and> is_field v \<and> fits (lookup acc k) (shapeOf v))
                 ((key, v) # rest)"
    from "6.IH"(1) state ok obtain n where
      n: "rawKey key v state = Some (Obj (set_entry key n acc))" "has_shape n (shapeOf v)"
      by auto
    from dist have fresh: "key \<notin> set (map fst rest)" by simp
    have "list_all (\<lambda>(k, v). \<not> reserved k \<and> is_field v \<and>
                     fits (lookup (set_entry key n acc) k) (shapeOf v)) rest"
    proof -
      have "lookup (set_entry key n acc) k = lookup acc k" if "(k, w) \<in> set rest" for k w
      proof -
        from that fresh have "k \<noteq> key" by force
        then show ?thesis by (simp add: lookup_set_entry_other)
      qed
      with ok show ?thesis by (auto simp: list_all_iff)
    qed
    with "6.IH"(2) [OF n(1)] dist obtain built where
      b: "rawKeys rest (Obj (set_entry key n acc)) = Some (Obj built)"
         "set (map fst built) = set (map fst (set_entry key n acc)) \<union> set (map fst rest)"
         "\<forall>k. k \<notin> set (map fst rest) \<longrightarrow> lookup built k = lookup (set_entry key n acc) k"
         "list_all (\<lambda>(k, v). has_shape (lookup built k) (shapeOf v)) rest"
      by auto
    from b(3) fresh have "lookup built key = n" by (simp add: lookup_set_entry_same)
    moreover from b(3) have "\<forall>k. k \<notin> set (map fst ((key, v) # rest)) \<longrightarrow>
        lookup built k = lookup acc k"
      by (simp add: lookup_set_entry_other)
    ultimately show "\<exists>built. rawKeys ((key, v) # rest) state = Some (Obj built) \<and>
        set (map fst built) = set (map fst acc) \<union> set (map fst ((key, v) # rest)) \<and>
        (\<forall>k. k \<notin> set (map fst ((key, v) # rest)) \<longrightarrow> lookup built k = lookup acc k) \<and>
        list_all (\<lambda>(k, v). has_shape (lookup built k) (shapeOf v)) ((key, v) # rest)"
      using n b(1,2,4) by (intro exI [of _ built]) (auto simp: keys_set_entry)
  qed
next
  case (9 key es ps state)
  show ?case
  proof (intro allI impI)
    fix acc
    assume state: "state = Obj acc" and field: "is_field (Arr es ps)"
      and fits: "fits (lookup acc key) (shapeOf (Arr es ps))"
    from field have ps: "ps = []" and recs: "list_all is_record es" by simp_all
    have prev: "get_prop state key = Some (lookup acc key)"
      by (simp add: state get_prop_def)
    let ?f = "\<lambda>(index, value).
                get_prop state key \<bind>
                  (\<lambda>prev. createRawState value (object_assign (read prev (show_nat index))))"
    have step: "\<exists>y. ?f x = Some y \<and> has_shape y (shapeOf (snd x))"
      if "x \<in> set (enumerate 0 es)" for x
    proof -
      obtain index e where x: "x = (index, e)" by (cases x)
      from that x have e: "index < length es" "e = es ! index"
        by (auto simp: in_set_enumerate_eq)
      with recs have rec: "is_record e" by (simp add: list_all_length)
      then obtain xs where xs: "shapeOf e = SRecord xs" using is_record_shape by blast
      from e have "(index, shapeOf e) \<in> set (enumerate 0 (map shapeOf es))"
        by (auto simp: in_set_enumerate_eq)
      with fits have "fits (read (lookup acc key) (show_nat index)) (shapeOf e)"
        by (auto simp: list_all_iff)
      then have "fits (object_assign (read (lookup acc key) (show_nat index))) (shapeOf e)"
        by (simp only: xs fits_object_assign)
      with "9.IH" [OF that x [symmetric] prev] rec show ?thesis
        by (auto simp: x prev object_assign_def)
    qed
    have "\<exists>new. those (map ?f (enumerate 0 es)) = Some new \<and>
                list_all2 (\<lambda>x y. has_shape y (shapeOf (snd x))) (enumerate 0 es) new"
      by (rule those_map_rel) (rule step)
    then obtain new where
      new: "those (map ?f (enumerate 0 es)) = Some new"
      and rel: "list_all2 (\<lambda>x y. has_shape y (shapeOf (snd x))) (enumerate 0 es) new"
      by blast
    from rel have "list_all2 has_shape new (map shapeOf es)"
      by (auto simp: list_all2_conv_all_nth nth_enumerate_eq)
    with new show "\<exists>n. rawKey key (Arr es ps) state = Some (Obj (set_entry key n acc)) \<and>
              has_shape n (shapeOf (Arr es ps))"
      by (intro exI [of _ "Arr new [(''_errors'', no_errors)]"])
         (simp add: state store_array_Obj set_entry_twice)
  qed
next
  case (10 key kvs state)
  show ?case
  proof (intro allI impI)
    fix acc
    assume state: "state = Obj acc" and field: "is_field (Obj kvs)"
      and fits: "fits (lookup acc key) (shapeOf (Obj kvs))"
    have prev: "get_prop state key = Some (lookup acc key)"
      by (simp add: state get_prop_def)
    from field have rec: "is_record (Obj kvs)" by simp
    let ?xs = "map (\<lambda>(k, v). (k, shapeOf v)) kvs"
    from fits have "fits (object_assign (lookup acc key)) (shapeOf (Obj kvs))"
      by (simp only: shapeOf.simps fits_object_assign)
    with "10.IH" [OF prev] rec obtain built where
      b: "createRawState (Obj kvs) (object_assign (lookup acc key)) = Some (Obj built)"
         "has_shape (Obj built) (shapeOf (Obj kvs))"
      by (auto simp: object_assign_def simp del: createRawState.simps has_shape.simps
          shapeOf.simps is_record.simps fits.simps)
    from rec have "\<forall>k\<in>set (map fst ?xs). \<not> reserved k"
      by (auto simp: list_all_iff)
    with b(2) have "has_shape (with_errors (Obj built)) (shapeOf (Obj kvs))"
      by (simp only: shapeOf.simps has_shape_with_errors)
    with b(1) show "\<exists>n. rawKey key (Obj kvs) state = Some (Obj (set_entry key n acc)) \<and>
              has_shape n (shapeOf (Obj kvs))"
      by (intro exI [of _ "with_errors (Obj built)"])
         (simp add: state get_prop_def
            del: createRawState.simps has_shape.simps shapeOf.simps)
  qed
qed (auto simp: has_shape_leaf)


lemma fits_rest:
  assumes "key \<notin> set (map fst rest)"
    and "list_all (\<lambda>(k, s). fits (lookup acc k) (G k s)) rest"
  shows "list_all (\<lambda>(k, s). fits (lookup (set_entry key n acc) k) (G k s)) rest"
proof -
  have "lookup (set_entry key n acc) k = lookup acc k" if "(k, w) \<in> set rest" for k w
  proof -
    from that assms(1) have "k \<noteq> key" by force
    then show ?thesis by (simp add: lookup_set_entry_other)
  qed
  with assms(2) show ?thesis by (auto simp: list_all_iff)
qed

lemma rebuilt_step:
  assumes "key \<notin> set (map fst rest)"
    and "has_shape n x"
    and "set (map fst built) = set (map fst (set_entry key n acc)) \<union> set (map fst rest)"
    and "\<forall>k. k \<notin> set (map fst rest) \<longrightarrow> lookup built k = lookup (set_entry key n acc) k"
  shows "set (map fst built) = set (map fst acc) \<union> set (map fst ((key, s) # rest))"
    and "\<forall>k. k \<notin> set (map fst ((key, s) # rest)) \<longrightarrow> lookup built k = lookup acc k"
    and "has_shape (lookup built key) x"
proof -
  from assms(3) show "set (map fst built) = set (map fst acc) \<union> set (map fst ((key, s) # rest))"
    by (auto simp: keys_set_entry)
  from assms(4) show "\<forall>k. k \<notin> set (map fst ((key, s) # rest)) \<longrightarrow> lookup built k = lookup acc k"
    by (simp add: lookup_set_entry_other)
  from assms(1,4) have "lookup built key = n" by (simp add: lookup_set_entry_same)
  with assms(2) show "has_shape (lookup built key) x" by simp
qed

lemma validatedState_rebuilt:
  "\<forall>acc st. state = Obj acc \<longrightarrow> wf_fields fs \<longrightarrow>
     list_all (\<lambda>(k, s). fits (lookup acc k) (fieldShapeOf s (read data k))) fs \<longrightarrow>
     createValidatedState data fs state = Some st \<longrightarrow>
     (\<exists>built. st = Obj built \<and>
        set (map fst built) = set (map fst acc) \<union> set (map fst fs) \<and>
        (\<forall>k. k \<notin> set (map fst fs) \<longrightarrow> lookup built k = lookup acc k) \<and>
        list_all (\<lambda>(k, s). has_shape (lookup built k) (fieldShapeOf s (read data k))) fs)"
proof (induction data fs state rule: createValidatedState.induct)
  case (1 data state)
  then show ?case by simp
next
  case (2 data key inner rest state)
  show ?case
  proof (intro allI impI)
    fix acc st
    assume state: "state = Obj acc" and wf: "wf_fields ((key, YArray inner) # rest)"
      and fits: "list_all (\<lambda>(k, s). fits (lookup acc k) (fieldShapeOf s (read data k)))
                   ((key, YArray inner) # rest)"
      and run: "createValidatedState data ((key, YArray inner) # rest) state = Some st"
    from wf have fresh: "key \<notin> set (map fst rest)" and wfi: "wf_fields inner"
      and wfr: "wf_fields rest"
      by simp_all
    have prev: "get_prop state key = Some (lookup acc key)"
      by (simp add: state get_prop_def)
    let ?f = "\<lambda>(index, value).
                get_prop state key \<bind>
                  (\<lambda>prev. createValidatedState value inner
                             (object_assign (read prev (show_nat index))))"
    from run obtain elems new state1 where
      elems: "as_elements (let d = read data key in if truthy d then d else Arr [] []) = Some elems"
      and new: "those (map ?f (enumerate 0 elems)) = Some new"
      and sa: "store_array state key new = Some state1"
      and rest: "createValidatedState data rest state1 = Some st"
      by (auto simp: bind_eq_Some_conv)
    have el: "elements_of (read data key) = elems" by (rule as_elements_read [OF elems])
    from fits el have fk: "fits (lookup acc key) (SSeq (map (schemaShapeOf inner) elems))"
      by simp
    have "has_shape y (schemaShapeOf inner (snd x))"
      if "x \<in> set (enumerate 0 elems)" and "?f x = Some y" for x y
    proof -
      obtain index e where x: "x = (index, e)" by (cases x)
      let ?c = "read (lookup acc key) (show_nat index)"
      let ?xs = "map (\<lambda>(k, s). (k, fieldShapeOf s (read e k))) inner"
      from that(2) have y: "createValidatedState e inner (Obj (own_props ?c)) = Some y"
        by (simp add: x prev object_assign_def)
      from that(1) x have e: "index < length elems" "e = elems ! index"
        by (auto simp: in_set_enumerate_eq)
      then have "(index, schemaShapeOf inner e) \<in> set (enumerate 0 (map (schemaShapeOf inner) elems))"
        by (auto simp: in_set_enumerate_eq simp del: schemaShapeOf.simps)
      moreover from fk have
        "list_all (\<lambda>(i, x). fits (read (lookup acc key) (show_nat i)) x)
           (enumerate 0 (map (schemaShapeOf inner) elems))"
        by (simp only: fits.simps)
      ultimately have "fits ?c (schemaShapeOf inner e)"
        by (auto simp: list_all_iff simp del: schemaShapeOf.simps fits.simps)
      then have f1: "list_all (\<lambda>(k, p). reserved k \<or> k \<in> set (map fst ?xs)) (own_props ?c)"
        and f2: "list_all (\<lambda>(k, x). fits (lookup (own_props ?c) k) x) ?xs"
        by simp_all
      from f2 have "list_all (\<lambda>(k, s). fits (lookup (own_props ?c) k) (fieldShapeOf s (read e k)))
                      inner"
        by (auto simp: list_all_iff)
      with "2.IH"(1) [OF elems that(1) x [symmetric] prev] wfi y obtain built where
        b: "y = Obj built"
           "set (map fst built) = set (map fst (own_props ?c)) \<union> set (map fst inner)"
           "list_all (\<lambda>(k, s). has_shape (lookup built k) (fieldShapeOf s (read e k))) inner"
        by (auto simp: object_assign_def simp del: wf_fields.simps)
      from b(2) have "set (map fst built) \<subseteq> set (map fst (own_props ?c)) \<union> set (map fst ?xs)"
        unfolding keys_shapes by blast
      moreover from b(2,3) have
        "list_all (\<lambda>(k, x). k \<in> set (map fst built) \<and> has_shape (lookup built k) x) ?xs"
        by (force simp: list_all_iff)
      ultimately have "has_shape (Obj built) (SRecord ?xs)"
        using f1 by (intro has_shape_recordI [where acc = "own_props ?c"])
      with b(1) show ?thesis by (simp add: x)
    qed
    with those_map_all2 [OF new]
    have "list_all2 (\<lambda>x y. has_shape y (schemaShapeOf inner (snd x))) (enumerate 0 elems) new"
      by (auto simp: list_all2_conv_all_nth)
    then have shapes: "list_all2 has_shape new (map (schemaShapeOf inner) elems)"
      by (auto simp: list_all2_conv_all_nth nth_enumerate_eq)
    let ?n = "Arr new [(''_errors'', no_errors)]"
    from sa have state1: "state1 = Obj (set_entry key ?n acc)"
      by (simp add: state store_array_Obj set_entry_twice)
    from fits have "list_all (\<lambda>(k, s). fits (lookup acc k) (fieldShapeOf s (read data k))) rest"
      by simp
    from fits_rest [OF fresh this]
    have "list_all (\<lambda>(k, s). fits (lookup (set_entry key ?n acc) k) (fieldShapeOf s (read data k)))
            rest" .
    with "2.IH"(2) [OF elems new sa] state1 wfr rest obtain built where
      b: "st = Obj built"
         "set (map fst built) = set (map fst (set_entry key ?n acc)) \<union> set (map fst rest)"
         "\<forall>k. k \<notin> set (map fst rest) \<longrightarrow> lookup built k = lookup (set_entry key ?n acc) k"
         "list_all (\<lambda>(k, s). has_shape (lookup built k) (fieldShapeOf s (read data k))) rest"
      by (auto simp del: wf_fields.simps)
    from shapes have n: "has_shape ?n (SSeq (map (schemaShapeOf inner) elems))" by simp
    from rebuilt_step [OF fresh n b(2,3)] b(1,4) el
    show "\<exists>built. st = Obj built \<and>
            set (map fst built) = set (map fst acc) \<union> set (map fst ((key, YArray inner) # rest)) \<and>
            (\<forall>k. k \<notin> set (map fst ((key, YArray inner) # rest)) \<longrightarrow>
                 lookup built k = lookup acc k) \<and>
            list_all (\<lambda>(k, s). has_shape (lookup built k) (fieldShapeOf s (read data k)))
              ((key, YArray inner) # rest)"
      by (intro exI [of _ built]) (simp del: schemaShapeOf.simps)
  qed
next
  case (3 data key fs rest state)
  show ?case
  proof (intro allI impI)
    fix acc st
    assume state: "state = Obj acc" and wf: "wf_fields ((key, YObject fs) # rest)"
      and fits: "list_all (\<lambda>(k, s). fits (lookup acc k) (fieldShapeOf s (read data k)))
                   ((key, YObject fs) # rest)"
      and run: "createValidatedState data ((key, YObject fs) # rest) state = Some st"
    from wf have fresh: "key \<notin> set (map fst rest)" and wff: "wf_fields fs"
      and wfr: "wf_fields rest"
      by simp_all
    have prev: "get_prop state key = Some (lookup acc key)"
      by (simp add: state get_prop_def)
    from fits have fr: "list_all (\<lambda>(k, s). fits (lookup acc k) (fieldShapeOf s (read data k))) rest"
      by simp
    show "\<exists>built. st = Obj built \<and>
            set (map fst built) = set (map fst acc) \<union> set (map fst ((key, YObject fs) # rest)) \<and>
            (\<forall>k. k \<notin> set (map fst ((key, YObject fs) # rest)) \<longrightarrow>
                 lookup built k = lookup acc k) \<and>
            list_all (\<lambda>(k, s). has_shape (lookup built k) (fieldShapeOf s (read data k)))
              ((key, YObject fs) # rest)"
    proof (cases "fs = []")
      case True
      let ?n = "leaf (or_false (read (read state key) ''_touched''))"
      from run True have
        sp: "set_prop state key ?n = Some (Obj (set_entry key ?n acc))"
        and rest: "createValidatedState data rest (Obj (set_entry key ?n acc)) = Some st"
        by (simp_all add: state)
      from fits_rest [OF fresh fr]
      have "list_all (\<lambda>(k, s). fits (lookup (set_entry key ?n acc) k)
                                   (fieldShapeOf s (read data k))) rest" .
      with "3.IH"(3) [OF _ sp] True wfr rest obtain built where
        b: "st = Obj built"
           "set (map fst built) = set (map fst (set_entry key ?n acc)) \<union> set (map fst rest)"
           "\<forall>k. k \<notin> set (map fst rest) \<longrightarrow> lookup built k = lookup (set_entry key ?n acc) k"
           "list_all (\<lambda>(k, s). has_shape (lookup built k) (fieldShapeOf s (read data k))) rest"
        by (auto simp del: wf_fields.simps)
      have n: "has_shape ?n SLeaf" by (rule has_shape_leaf)
      from rebuilt_step [OF fresh n b(2,3)] b(1,4) True show ?thesis
        by (intro exI [of _ built]) simp
    next
      case False
      let ?c = "lookup acc key"
      from run False obtain d sub where
        d: "get_prop data key = Some d"
        and sub: "createValidatedState d fs (object_assign ?c) = Some sub"
        and rest: "createValidatedState data rest (Obj (set_entry key (with_errors sub) acc)) = Some st"
        by (auto simp: bind_eq_Some_conv get_prop_def [of "Obj acc"] state)
      from d have dr: "d = read data key" by (auto simp: get_prop_def split: if_splits)
      let ?xs = "map (\<lambda>(k, s). (k, fieldShapeOf s (read d k))) fs"
      from fits False dr have "fits ?c (SRecord ?xs)" by simp
      then have f1: "list_all (\<lambda>(k, p). reserved k \<or> k \<in> set (map fst ?xs)) (own_props ?c)"
        and f2: "list_all (\<lambda>(k, x). fits (lookup (own_props ?c) k) x) ?xs"
        by simp_all
      from f2 have "list_all (\<lambda>(k, s). fits (lookup (own_props ?c) k) (fieldShapeOf s (read d k))) fs"
        by (auto simp: list_all_iff)
      with "3.IH"(1) [OF False d prev] wff sub obtain sb where
        sb: "sub = Obj sb"
            "set (map fst sb) = set (map fst (own_props ?c)) \<union> set (map fst fs)"
            "list_all (\<lambda>(k, s). has_shape (lookup sb k) (fieldShapeOf s (read d k))) fs"
        by (auto simp: object_assign_def simp del: wf_fields.simps)
      from sb(2) have "set (map fst sb) \<subseteq> set (map fst (own_props ?c)) \<union> set (map fst ?xs)"
        unfolding keys_shapes by blast
      moreover from sb(2,3) have
        "list_all (\<lambda>(k, x). k \<in> set (map fst sb) \<and> has_shape (lookup sb k) x) ?xs"
        by (force simp: list_all_iff)
      ultimately have "has_shape (Obj sb) (SRecord ?xs)"
        using f1 by (intro has_shape_recordI [where acc = "own_props ?c"])
      moreover from wf_fields_unreserved [OF wff] have "\<forall>k\<in>set (map fst ?xs). \<not> reserved k"
        unfolding keys_shapes .
      ultimately have n: "has_shape (with_errors sub) (SRecord ?xs)"
        unfolding sb(1) by (rule has_shape_with_errors)
      have sp: "set_prop state key (with_errors sub) = Some (Obj (set_entry key (with_errors sub) acc))"
        by (simp add: state)
      from fits_rest [OF fresh fr]
      have "list_all (\<lambda>(k, s). fits (lookup (set_entry key (with_errors sub) acc) k)
                                   (fieldShapeOf s (read data k))) rest" .
      with "3.IH"(2) [OF False d prev sub sp] wfr rest obtain built where
        b: "st = Obj built"
           "set (map fst built) =
              set (map fst (set_entry key (with_errors sub) acc)) \<union> set (map fst rest)"
           "\<forall>k. k \<notin> set (map fst rest) \<longrightarrow>
                lookup built k = lookup (set_entry key (with_errors sub) acc) k"
           "list_all (\<lambda>(k, s). has_shape (lookup built k) (fieldShapeOf s (read data k))) rest"
        by (auto simp del: wf_fields.simps)
      from rebuilt_step [OF fresh n b(2,3)] b(1,4) False dr show ?thesis
        by (intro exI [of _ built]) simp
    qed
  qed
next
  case (4 data key rest state)
  show ?case
  proof (intro allI impI)
    fix acc st
    assume state: "state = Obj acc" and wf: "wf_fields ((key, YScalar) # rest)"
      and fits: "list_all (\<lambda>(k, s). fits (lookup acc k) (fieldShapeOf s (read data k)))
                   ((key, YScalar) # rest)"
      and run: "createValidatedState data ((key, YScalar) # rest) state = Some st"
    from wf have fresh: "key \<notin> set (map fst rest)" and wfr: "wf_fields rest"
      by simp_all
    from fits have fr: "list_all (\<lambda>(k, s). fits (lookup acc k) (fieldShapeOf s (read data k))) rest"
      by simp
    let ?n = "leaf (or_false (read (read state key) ''_touched''))"
    from run have
      sp: "set_prop state key ?n = Some (Obj (set_entry key ?n acc))"
      and rest: "createValidatedState data rest (Obj (set_entry key ?n acc)) = Some st"
      by (simp_all add: state)
    from fits_rest [OF fresh fr]
    have "list_all (\<lambda>(k, s). fits (lookup (set_entry key ?n acc) k)
                                 (fieldShapeOf s (read data k))) rest" .
    with "4.IH" [OF sp] wfr rest obtain built where
      b: "st = Obj built"
         "set (map fst built) = set (map fst (set_entry key ?n acc)) \<union> set (map fst rest)"
         "\<forall>k. k \<notin> set (map fst rest) \<longrightarrow> lookup built k = lookup (set_entry key ?n acc) k"
         "list_all (\<lambda>(k, s). has_shape (lookup built k) (fieldShapeOf s (read data k))) rest"
      by (auto simp del: wf_fields.simps)
    have n: "has_shape ?n SLeaf" by (rule has_shape_leaf)
    from rebuilt_step [OF fresh n b(2,3)] b(1,4)
    show "\<exists>built. st = Obj built \<and>
            set (map fst built) = set (map fst acc) \<union> set (map fst ((key, YScalar) # rest)) \<and>
            (\<forall>k. k \<notin> set (map fst ((key, YScalar) # rest)) \<longrightarrow>
                 lookup built k = lookup acc k) \<and>
            list_all (\<lambda>(k, s). has_shape (lookup built k) (fieldShapeOf s (read data k)))
              ((key, YScalar) # rest)"
      by (intro exI [of _ built]) simp
  qed
qed


lemma fits_nothing: "fits Undefined s"
proof (induction s)
  case SLeaf
  then show ?case by simp
next
  case (SRecord xs)
  then show ?case by (fastforce simp: list_all_iff)
next
  case (SSeq xs)
  then show ?case by (auto simp: list_all_iff in_set_enumerate_eq)
qed

lemma fits_empty: "fits (Obj []) (SRecord xs)"
  using fits_nothing by (auto simp: list_all_iff)

lemma rebuilt_raw:
  assumes "is_record d" and "fits (Obj prev) (shapeOf d)"
  shows "\<exists>st. createRawState d (Obj prev) = Some st \<and> has_shape st (shapeOf d)"
  using rawState_rebuilt(1) [of d "Obj prev"] assms by blast

lemma rebuilt_validated:
  assumes wf: "wf_fields fs" and fits: "fits (Obj prev) (schemaShapeOf fs d)"
    and st: "createValidatedState d fs (Obj prev) = Some st"
  shows "has_shape st (schemaShapeOf fs d)"
proof -
  let ?xs = "map (\<lambda>(k, s). (k, fieldShapeOf s (read d k))) fs"
  from fits have f1: "list_all (\<lambda>(k, p). reserved k \<or> k \<in> set (map fst ?xs)) prev"
    and f2: "list_all (\<lambda>(k, x). fits (lookup prev k) x) ?xs"
    by simp_all
  from f2 have "list_all (\<lambda>(k, s). fits (lookup prev k) (fieldShapeOf s (read d k))) fs"
    by (auto simp: list_all_iff)
  with validatedState_rebuilt [of "Obj prev" fs d] wf st obtain built where
    b: "st = Obj built" "set (map fst built) = set (map fst prev) \<union> set (map fst fs)"
       "list_all (\<lambda>(k, s). has_shape (lookup built k) (fieldShapeOf s (read d k))) fs"
    by (auto simp del: wf_fields.simps)
  from b(2) have "set (map fst built) \<subseteq> set (map fst prev) \<union> set (map fst ?xs)"
    unfolding keys_shapes by blast
  moreover from b(2,3) have
    "list_all (\<lambda>(k, x). k \<in> set (map fst built) \<and> has_shape (lookup built k) x) ?xs"
    by (force simp: list_all_iff)
  ultimately have "has_shape (Obj built) (SRecord ?xs)"
    using f1 by (intro has_shape_recordI [where acc = prev])
  with b(1) show ?thesis by simp
qed

text \<open>
  C3, as the claim states it: with or without a schema, and whatever tree the builder is
  given to build on, the built tree has the shape of the data. With a schema the builder
  walks the schema: for the data \<open>{ title, note }\<close> and the schema \<open>{ title, subtitle }\<close> the
  tree has a node for \<open>subtitle\<close>, which the data lacks, and none for \<open>note\<close>. And a rebuild
  (\<open>updateState\<close>) builds onto a copy of the previous tree, from which nothing is removed:
  after the field \<open>note\<close> has been removed from the data, the rebuilt tree still has its node.
  (A field named \<open>_errors\<close> inside an object field has no node either: the error list of
  the object, stored under the same name, replaces it.)
\<close>

theorem builder_shape_differs_from_data:
  "map_option metadataShapeOf
     (createValidatedState (Obj [(''title'', Str ''x''), (''note'', Str ''y'')])
        [(''title'', YScalar), (''subtitle'', YScalar)] (Obj [])) \<noteq>
   Some (shapeOf (Obj [(''title'', Str ''x''), (''note'', Str ''y'')])) \<and>
   form_values note_removed_form = Obj [(''title'', Str ''x'')] \<and>
   map_option (\<lambda>f. metadataShapeOf (form_state f)) (updateState None note_removed_form) =
     Some (SRecord [(''title'', SLeaf), (''note'', SLeaf)]) \<and>
   map_option (\<lambda>f. has_shape (form_state f) (shapeOf (form_values f)))
     (updateState None note_removed_form) = Some False \<and>
   createValidatedState (Obj [(''extra'', Obj [])])
     [(''extra'', YObject [(''_errors'', YScalar)])] (Obj []) =
   Some (Obj [(''extra'', Obj [(''_errors'', Arr [] [])])])"
  by code_simp

text \<open>
  C3, amended. Without a schema, for a data tree of records, scalars other than \<open>null\<close> and
  sequences of records: built from the empty state, the tree has exactly the shape of the
  data, field order included; built onto a previous tree that has no field beyond the shape
  of the data (\<open>fits\<close>; the empty tree fits every record), the builder returns and the tree
  has the shape of the data: the same field names at every record and the same length at
  every sequence. With a schema (field names distinct, none \<open>_touched\<close> or \<open>_errors\<close>),
  whenever the builder returns: from the empty state the tree has exactly the shape that the
  schema declares for the data (a node for every declared field, in the data or not, one
  entry per element of the data's array for an array field, no node for a field that the
  schema does not declare); onto a previous tree that has no field beyond this shape, the
  tree has this shape. \<open>updateState\<close> builds onto the copy
  \<open>JSON.parse(JSON.stringify(state))\<close> of the stored tree and leaves the data as it is:
  when this copy fits, the tree it stores has the shape of the data, or of the schema.
\<close>

theorem builder_shape:
  "(is_record d \<longrightarrow>
      (\<exists>st. createRawState d (Obj []) = Some st \<and> metadataShapeOf st = shapeOf d) \<and>
      (fits (Obj prev) (shapeOf d) \<longrightarrow>
         (\<exists>st. createRawState d (Obj prev) = Some st \<and> has_shape st (shapeOf d)))) \<and>
   (wf_fields fs \<longrightarrow>
      (\<forall>st. createValidatedState d fs (Obj []) = Some st \<longrightarrow>
            metadataShapeOf st = schemaShapeOf fs d) \<and>
      (fits (Obj prev) (schemaShapeOf fs d) \<longrightarrow>
         (\<forall>st. createValidatedState d fs (Obj prev) = Some st \<longrightarrow>
               has_shape st (schemaShapeOf fs d)))) \<and>
   (form_state f = Obj kvs \<longrightarrow>
      (is_record (form_values f) \<longrightarrow>
       fits (json_copy (form_state f)) (shapeOf (form_values f)) \<longrightarrow>
         (\<exists>f'. updateState None f = Some f' \<and> form_values f' = form_values f \<and>
               has_shape (form_state f') (shapeOf (form_values f')))) \<and>
      (wf_fields (schema_fields s) \<longrightarrow>
       fits (json_copy (form_state f)) (schemaShapeOf (schema_fields s) (form_values f)) \<longrightarrow>
         (\<forall>f'. updateState (Some s) f = Some f' \<longrightarrow>
               form_values f' = form_values f \<and>
               has_shape (form_state f') (schemaShapeOf (schema_fields s) (form_values f')))))"
proof (intro conjI impI allI)
  assume "is_record d"
  with rawState_shape(1) [of d "Obj []"]
  show "\<exists>st. createRawState d (Obj []) = Some st \<and> metadataShapeOf st = shapeOf d"
    by blast
next
  assume "is_record d" and "fits (Obj prev) (shapeOf d)"
  then show "\<exists>st. createRawState d (Obj prev) = Some st \<and> has_shape st (shapeOf d)"
    by (rule rebuilt_raw)
next
  fix st
  assume wf: "wf_fields fs" and st: "createValidatedState d fs (Obj []) = Some st"
  with validatedState_shape [of "Obj []" fs d] obtain built where
    b: "st = Obj built" "map fst built = map fst fs"
       "map (\<lambda>e. metadataShapeOf (snd e)) built = map (\<lambda>(k, s). fieldShapeOf s (read d k)) fs"
    by (auto simp del: wf_fields.simps)
  from built_record_shape [OF b(2) wf_fields_unreserved [OF wf] b(3)] b(1)
  show "metadataShapeOf st = schemaShapeOf fs d" by simp
next
  fix st
  assume "wf_fields fs" and "fits (Obj prev) (schemaShapeOf fs d)"
    and "createValidatedState d fs (Obj prev) = Some st"
  then show "has_shape st (schemaShapeOf fs d)" by (rule rebuilt_validated)
next
  assume st: "form_state f = Obj kvs" and rec: "is_record (form_values f)"
    and fits: "fits (json_copy (form_state f)) (shapeOf (form_values f))"
  from st obtain p where p: "json_copy (form_state f) = Obj p" by auto
  from rebuilt_raw [OF rec, of p] fits obtain built where
    "createRawState (form_values f) (Obj p) = Some built"
    "has_shape built (shapeOf (form_values f))"
    by (auto simp: p)
  with st p show "\<exists>f'. updateState None f = Some f' \<and> form_values f' = form_values f \<and>
        has_shape (form_state f') (shapeOf (form_values f'))"
    by (simp add: updateState_def json_clone_def del: json_copy.simps)
next
  fix f'
  assume st: "form_state f = Obj kvs" and wf: "wf_fields (schema_fields s)"
    and fits: "fits (json_copy (form_state f)) (schemaShapeOf (schema_fields s) (form_values f))"
    and run: "updateState (Some s) f = Some f'"
  from st obtain p where p: "json_copy (form_state f) = Obj p" by auto
  from run st p obtain built where
    b: "createValidatedState (form_values f) (schema_fields s) (Obj p) = Some built"
       "f' = f\<lparr>form_state := built, state_sets := state_sets f + 1\<rparr>"
    by (auto simp: updateState_def json_clone_def bind_eq_Some_conv simp del: json_copy.simps)
  from b(2) show "form_values f' = form_values f" by simp
  from rebuilt_validated [OF wf _ b(1)] fits b(2)
  show "has_shape (form_state f') (schemaShapeOf (schema_fields s) (form_values f'))"
    by (simp add: p del: schemaShapeOf.simps fits.simps)
qed

theorem builder_shape_witness:
  "map_option metadataShapeOf
     (createRawState
        (Obj [(''title'', Str ''x''),
              (''users'', Arr [Obj [(''name'', Str ''ann''),
                                    (''address'', Obj [(''city'', Str ''c'')])]] [])])
        (Obj [])) =
   Some (shapeOf
        (Obj [(''title'', Str ''x''),
              (''users'', Arr [Obj [(''name'', Str ''ann''),
                                    (''address'', Obj [(''city'', Str ''c'')])]] [])])) \<and>
   map_option metadataShapeOf
     (createValidatedState (Obj [(''users'', Arr [Obj [(''name'', Str ''ann'')]] [])])
        (users_fields @ title_fields) (Obj [])) =
   Some (schemaShapeOf (users_fields @ title_fields)
          (Obj [(''users'', Arr [Obj [(''name'', Str ''ann'')]] [])])) \<and>
   map_option (\<lambda>st. has_shape st (shapeOf grown_data))
     (createRawState grown_data (Obj touched_tree)) = Some True \<and>
   map_option (\<lambda>st. has_shape st (schemaShapeOf (users_fields @ title_fields) grown_data))
     (createValidatedState grown_data (users_fields @ title_fields) (Obj touched_tree)) =
   Some True \<and>
   map_option (\<lambda>f'. has_shape (form_state f') (shapeOf (form_values f')))
     (updateState None grown_form) = Some True \<and>
   map_option (\<lambda>f'. has_shape (form_state f')
                        (schemaShapeOf (users_fields @ title_fields) (form_values f')))
     (updateState (Some (accepting (users_fields @ title_fields))) grown_schema_form) = Some True"
proof -
  let ?d = "Obj [(''title'', Str ''x''),
                 (''users'', Arr [Obj [(''name'', Str ''ann''),
                                       (''address'', Obj [(''city'', Str ''c'')])]] [])]"
  let ?e = "Obj [(''users'', Arr [Obj [(''name'', Str ''ann'')]] [])]"
  let ?fs = "users_fields @ title_fields"
  let ?s = "accepting ?fs"
  have rec: "is_record ?d" by code_simp
  have wf: "wf_fields ?fs" by code_simp
  have ran: "createValidatedState ?e ?fs (Obj []) \<noteq> None"
    by code_simp
  have grown: "is_record grown_data" "fits (Obj touched_tree) (shapeOf grown_data)"
    "fits (Obj touched_tree) (schemaShapeOf ?fs grown_data)"
    "createValidatedState grown_data ?fs (Obj touched_tree) \<noteq> None"
    by code_simp+
  have form: "form_state grown_form =
       Obj [(''title'', Obj [(''_touched'', Bool False), (''_errors'', Arr [] [])]),
            (''users'',
             Arr [Obj [(''name'', Obj [(''_touched'', Bool False), (''_errors'', Arr [] [])])]]
                 [(''_errors'', Arr [] [])])]"
    "is_record (form_values grown_form)"
    "fits (json_copy (form_state grown_form)) (shapeOf (form_values grown_form))"
    by code_simp+
  have sform: "form_state grown_schema_form =
       Obj [(''users'',
             Arr [Obj [(''name'', Obj [(''_touched'', Bool False), (''_errors'', Arr [] [])])]]
                 [(''_touched'', Bool False), (''_errors'', Arr [] [])]),
            (''title'', Obj [(''_touched'', Bool False), (''_errors'', Arr [] [])])]"
    "wf_fields (schema_fields ?s)"
    "fits (json_copy (form_state grown_schema_form))
       (schemaShapeOf (schema_fields ?s) (form_values grown_schema_form))"
    "updateState (Some ?s) grown_schema_form \<noteq> None"
    "schema_fields ?s = ?fs"
    by code_simp+
  from builder_shape [where d = ?e and fs = ?fs] wf ran
  have "map_option metadataShapeOf (createValidatedState ?e ?fs (Obj []))
        = Some (schemaShapeOf ?fs ?e)"
    by (auto simp del: wf_fields.simps schemaShapeOf.simps createValidatedState.simps)
  moreover from builder_shape [where d = ?d and fs = ?fs] rec
  have "map_option metadataShapeOf (createRawState ?d (Obj [])) = Some (shapeOf ?d)"
    by (auto simp del: is_record.simps shapeOf.simps createRawState.simps)
  moreover from builder_shape [where d = grown_data and prev = touched_tree] grown(1,2)
  have "map_option (\<lambda>st. has_shape st (shapeOf grown_data))
          (createRawState grown_data (Obj touched_tree)) = Some True"
    by (auto simp del: is_record.simps shapeOf.simps createRawState.simps fits.simps
        has_shape.simps)
  moreover from builder_shape [where d = grown_data and fs = ?fs and prev = touched_tree]
    wf grown(3,4)
  have "map_option (\<lambda>st. has_shape st (schemaShapeOf ?fs grown_data))
          (createValidatedState grown_data ?fs (Obj touched_tree)) = Some True"
    by (auto simp del: wf_fields.simps schemaShapeOf.simps createValidatedState.simps fits.simps
        has_shape.simps)
  moreover
  have "\<exists>f'. updateState None grown_form = Some f' \<and>
             form_values f' = form_values grown_form \<and>
             has_shape (form_state f') (shapeOf (form_values f'))"
    using builder_shape [where f = grown_form and kvs =
        "[(''title'', Obj [(''_touched'', Bool False), (''_errors'', Arr [] [])]),
          (''users'',
           Arr [Obj [(''name'', Obj [(''_touched'', Bool False), (''_errors'', Arr [] [])])]]
               [(''_errors'', Arr [] [])])]"] form
    by blast
  then have "map_option (\<lambda>f'. has_shape (form_state f') (shapeOf (form_values f')))
          (updateState None grown_form) = Some True"
    by auto
  moreover
  have "\<forall>f'. updateState (Some ?s) grown_schema_form = Some f' \<longrightarrow>
             form_values f' = form_values grown_schema_form \<and>
             has_shape (form_state f')
               (schemaShapeOf (schema_fields ?s) (form_values f'))"
    using builder_shape [where f = grown_schema_form and s = ?s and kvs =
        "[(''users'',
           Arr [Obj [(''name'', Obj [(''_touched'', Bool False), (''_errors'', Arr [] [])])]]
               [(''_touched'', Bool False), (''_errors'', Arr [] [])]),
          (''title'', Obj [(''_touched'', Bool False), (''_errors'', Arr [] [])])]"] sform(1,2,3)
    by blast
  with sform(4,5)
  have "map_option (\<lambda>f'. has_shape (form_state f')
                        (schemaShapeOf ?fs (form_values f')))
          (updateState (Some ?s) grown_schema_form) = Some True"
    by (auto simp del: schemaShapeOf.simps has_shape.simps)
  ultimately show ?thesis by blast
qed

section \<open>Rebuilding and construction\<close>

text \<open>
  C4. The claim: a rebuild seeds \<open>_touched\<close> from the previous tree and leaves every error
  list of the new tree empty. The leaf, object and array branches all set \<open>_errors: []\<close>; an
  element of an array is built onto \<open>Object.assign({}, state[key]?.[index])\<close>, a copy of the
  previous element with its own \<open>_errors\<close>, which no branch resets. After a pass has put a
  message on \<open>tags[0]\<close>, the rebuild of \<open>updateForm\<close> carries it over.
\<close>

theorem updateState_carries_element_errors_over:
  "map_option (\<lambda>f. read (read (read (form_state f) ''tags'') ''0'') ''_errors'')
     (updateState (Some tags_schema) (validateForm (Some tags_schema) HNone tags_form)) =
   Some (Arr [Str ''tags[0] must be at least 3 characters''] [])"
  by code_simp

text \<open>
  C10. The claim: with a schema, \<open>createForm\<close> validates during construction, so that
  \<open>isValid\<close> reflects the initial values and the error lists of invalid initial fields are
  populated. \<open>createForm\<close> calls \<open>createState(values, ...)\<close> with the store, not with its
  value (\<open>resetForm\<close> passes \<open>get(values)\<close>): the initial metadata has no entry for any
  element of an array of the initial values. For one user with an empty name the violation
  of \<open>users[0].name\<close> does not resolve: \<open>isValid\<close> is false and the tree has no error at
  all, while the same validation after \<open>resetForm\<close> with these values records the error.
\<close>

theorem createForm_leaves_array_entries_without_errors:
  "map_option (\<lambda>f. (isValid f, form_state f, has_errors (form_state f)))
     (createForm (Some names_schema) nameless_users) =
   Some (False,
         Obj [(''users'', Arr [] [(''_touched'', Bool False), (''_errors'', no_errors)])],
         False) \<and>
   has_errors (form_state (validateForm (Some names_schema) HNone
                 (fst (resetForm (Some names_schema) nameless_users (new_form (Obj []))))))"
  by code_simp

end
